theory Spec2Isabelle
  imports Complex_Main
begin

section \<open>Runtime values\<close>

text \<open>
  The analyzer walks an arbitrary JavaScript value graph. Composite values live in a heap
  and are referred to by address, so that sharing and cycles can be expressed. The heap is
  only read during an analysis.

  Numbers are restricted to integers; arrays are dense (no holes).
\<close>

type_synonym addr = nat

datatype prim = PString string | PNumber int | PBoolean bool | PBigint int

text \<open>
  A function value, as far as \<open>handleFunction\<close> looks at it: \<open>value.name\<close>, the name of
  \<open>value.constructor\<close> (\<open>None\<close> when \<open>value.constructor\<close> is undefined, so that reading
  its name throws), and the outcome of \<open>func.toString()\<close> (\<open>Inl\<close> a thrown message).
\<close>

record func =
  fname :: string
  fconstructor :: "string option"
  ftoString :: "string + string"

datatype val =
    VNull
  | VUndefined
  | VPrim prim
  | VSymbol "string option"
  | VFunction func
  | VRef addr

text \<open>A getter either returns a value or throws; a property is a data or an accessor property.\<close>

datatype getter = GetReturn val | GetThrow string

datatype slot = Data val | Accessor "getter option" bool

datatype property = Property (pname: string) (penumerable: bool) (pslot: slot)

text \<open>
  What \<open>typeof prototype[name] === "function"\<close> finds for an own member of the prototype:
  a function, something else, or a getter that throws.
\<close>

datatype pmember = PMFunction | PMOther | PMThrow string

datatype proto =
    ProtoNull
  | ProtoObject
  | ProtoClass "string option" "(string \<times> pmember) list"

text \<open>
  The internal slots the built-in handlers read. \<open>IDate None\<close> is an invalid date, whose
  \<open>toISOString\<close> throws.
\<close>

datatype internal =
    INone
  | IDate "(string \<times> int) option"
  | IRegExp string string
  | IMap "(val \<times> val) list"
  | ISet "val list"
  | IPromise
  | IError string string "string option"
  | ITyped nat nat nat bool

record jsobject =
  oclass :: "string option"
  oprops :: "property list"
  osyms :: "(string option \<times> slot) list"
  oproto :: proto
  ointernal :: internal

datatype hobj = HArray "val list" | HObject jsobject

type_synonym heap = "addr \<Rightarrow> hobj"

section \<open>Analysis results\<close>

datatype key = KStr string | KIdx nat

datatype params = Params nat "string list" "string option"

text \<open>
  JSON trees. They serve twice: as the fields of a result that a caller-registered handler
  makes up for its own type (\<open>RCustom\<close>: the type tag, the fields in order, the
  path), and as the serialized form of a result.
\<close>

datatype json =
    JNull
  | JBool bool
  | JNum rat
  | JStr string
  | JArr "json list"
  | JObj "(string \<times> json) list"


datatype result =
    RError string "key list"
  | RMaxDepth "key list"
  | RCircular "key list"
  | RNull "key list"
  | RUndefined "key list"
  | RPrimitive prim "key list"
  | RSymbol "string option" "key list"
  | RFunction string bool bool "params option" "key list"
  | RArray nat "(result \<times> rat \<times> nat \<times> nat list) list" "key list"
  | RObject string "(string \<times> result) list" "(string \<times> result) list option"
      "(string option \<times> string list option) option" "key list"
  | RAccessor bool bool "key list"
  | RDate string int "key list"
  | RRegExp string string "key list"
  | RMap nat "(result \<times> result) list option" "key list"
  | RSet nat "result list option" "key list"
  | RPromise "key list"
  | RErrorObject string string "string option" "key list"
  | RTypedArray string nat nat nat bool "key list"
  | RCustom string "(string \<times> json) list" "key list"

fun result_path :: "result \<Rightarrow> key list" where
  "result_path (RError m p) = p"
| "result_path (RMaxDepth p) = p"
| "result_path (RCircular p) = p"
| "result_path (RNull p) = p"
| "result_path (RUndefined p) = p"
| "result_path (RPrimitive v p) = p"
| "result_path (RSymbol d p) = p"
| "result_path (RFunction n a g ps p) = p"
| "result_path (RArray n gs p) = p"
| "result_path (RObject c props syms pr p) = p"
| "result_path (RAccessor g s p) = p"
| "result_path (RDate v t p) = p"
| "result_path (RRegExp s f p) = p"
| "result_path (RMap n es p) = p"
| "result_path (RSet n vs p) = p"
| "result_path (RPromise p) = p"
| "result_path (RErrorObject n m s p) = p"
| "result_path (RTypedArray t l bl bo sh p) = p"
| "result_path (RCustom t fs p) = p"

section \<open>Configuration, context and handler tables\<close>

text \<open>
  \<open>AnalyzerContext\<close> carries the depth and the path. Its third field in the source,
  \<open>visited\<close>, is one \<open>WeakSet\<close> shared by reference between every context copied from
  it; it is modelled as a set of addresses threaded through every call and returned
  updated.
\<close>

record AnalyzerContext =
  depth :: int
  path :: "key list"

type_synonym visited = "addr set"

datatype builtin = BDate | BRegExp | BMap | BSet | BPromise | BError | BTyped string

text \<open>
  A caller-registered handler is a function of the value and the context (it may read the
  heap and the visited set); it returns a result or throws.
\<close>

datatype handler =
    HBuiltin builtin
  | HCustom "heap \<Rightarrow> val \<Rightarrow> AnalyzerContext \<Rightarrow> visited \<Rightarrow> string + result"

record AnalyzerConfig =
  maxDepth :: int
  includeMethods :: bool
  includeGettersSetters :: bool
  includePrototype :: bool
  includePrivateProps :: bool
  customTypes :: "string \<Rightarrow> handler option"

record PartialConfig =
  pc_maxDepth :: "int option"
  pc_includeMethods :: "bool option"
  pc_includeGettersSetters :: "bool option"
  pc_includePrototype :: "bool option"
  pc_includePrivateProps :: "bool option"
  pc_customTypes :: "(string \<Rightarrow> handler option) option"

definition typedArrays :: "string list" where
  "typedArrays =
     [''Int8Array'', ''Uint8Array'', ''Uint8ClampedArray'', ''Int16Array'', ''Uint16Array'',
      ''Int32Array'', ''Uint32Array'', ''Float32Array'', ''Float64Array'', ''BigInt64Array'',
      ''BigUint64Array'']"

definition registerCustomType :: "string \<Rightarrow> handler \<Rightarrow> AnalyzerConfig \<Rightarrow> AnalyzerConfig" where
  "registerCustomType className h A = A\<lparr>customTypes := (customTypes A)(className \<mapsto> h)\<rparr>"

definition registerBuiltInHandlers :: "AnalyzerConfig \<Rightarrow> AnalyzerConfig" where
  "registerBuiltInHandlers A =
     fold (\<lambda>(n, h). registerCustomType n h)
       ([(''Date'', HBuiltin BDate), (''RegExp'', HBuiltin BRegExp), (''Map'', HBuiltin BMap),
         (''Set'', HBuiltin BSet), (''Promise'', HBuiltin BPromise), (''Error'', HBuiltin BError)]
        @ map (\<lambda>n. (n, HBuiltin (BTyped n))) typedArrays) A"

text \<open>
  The constructor: each default is overridden by the field of the caller's partial
  configuration when that field is present (the spread comes last), and the built-in
  handlers are then registered over the resulting table.
\<close>

definition TypeAnalyzer :: "PartialConfig \<Rightarrow> AnalyzerConfig" where
  "TypeAnalyzer config =
     registerBuiltInHandlers
       \<lparr> maxDepth = (case pc_maxDepth config of Some m \<Rightarrow> m | None \<Rightarrow> 10),
         includeMethods = (case pc_includeMethods config of Some b \<Rightarrow> b | None \<Rightarrow> True),
         includeGettersSetters =
           (case pc_includeGettersSetters config of Some b \<Rightarrow> b | None \<Rightarrow> True),
         includePrototype = (case pc_includePrototype config of Some b \<Rightarrow> b | None \<Rightarrow> True),
         includePrivateProps =
           (case pc_includePrivateProps config of Some b \<Rightarrow> b | None \<Rightarrow> False),
         customTypes = (case pc_customTypes config of Some t \<Rightarrow> t | None \<Rightarrow> (\<lambda>_. None)) \<rparr>"

definition no_config :: PartialConfig where
  "no_config = \<lparr> pc_maxDepth = None, pc_includeMethods = None,
     pc_includeGettersSetters = None, pc_includePrototype = None,
     pc_includePrivateProps = None, pc_customTypes = None \<rparr>"

section \<open>The grouping key of array elements\<close>

text \<open>
  \<open>JSON.stringify(elementType)\<close>. The text of a JSON document determines its tree and
  the tree determines the text, so the key is modelled as the tree. Members whose value is
  \<open>undefined\<close> are left out, a \<open>bigint\<close> makes \<open>JSON.stringify\<close> throw a TypeError
  (\<open>None\<close> here), and members come in the order in which the result object was built.
\<close>

fun json_key :: "key \<Rightarrow> json" where
  "json_key (KStr s) = JStr s"
| "json_key (KIdx i) = JNum (of_nat i)"

definition json_path :: "key list \<Rightarrow> json" where
  "json_path p = JArr (map json_key p)"

definition json_opt :: "string \<Rightarrow> 'a option \<Rightarrow> ('a \<Rightarrow> json) \<Rightarrow> (string \<times> json) list" where
  "json_opt name v f = (case v of None \<Rightarrow> [] | Some x \<Rightarrow> [(name, f x)])"

definition json_strings :: "string list \<Rightarrow> json" where
  "json_strings xs = JArr (map JStr xs)"

fun json_params :: "params \<Rightarrow> json" where
  "json_params (Params c names err) =
     JObj ([(''count'', JNum (of_nat c)), (''names'', json_strings names)]
           @ json_opt ''error'' err JStr)"

fun json_prototype :: "string option \<times> string list option \<Rightarrow> json" where
  "json_prototype (c, ms) =
     JObj (json_opt ''constructor'' c JStr @ json_opt ''methods'' ms json_strings)"

fun type_tag :: "prim \<Rightarrow> string" where
  "type_tag (PString s) = ''string''"
| "type_tag (PNumber n) = ''number''"
| "type_tag (PBoolean b) = ''boolean''"
| "type_tag (PBigint n) = ''bigint''"

fun those_pairs :: "('a \<times> 'b option) list \<Rightarrow> ('a \<times> 'b) list option" where
  "those_pairs [] = Some []"
| "those_pairs ((k, None) # xs) = None"
| "those_pairs ((k, Some v) # xs) = map_option (Cons (k, v)) (those_pairs xs)"

fun toJSON :: "result \<Rightarrow> json option" where
  "toJSON (RError m p) =
     Some (JObj [(''type'', JStr ''error''), (''error'', JStr m), (''path'', json_path p)])"
| "toJSON (RMaxDepth p) =
     Some (JObj [(''type'', JStr ''max-depth-reached''), (''path'', json_path p)])"
| "toJSON (RCircular p) =
     Some (JObj [(''type'', JStr ''circular-reference''), (''path'', json_path p)])"
| "toJSON (RNull p) = Some (JObj [(''type'', JStr ''null''), (''path'', json_path p)])"
| "toJSON (RUndefined p) =
     Some (JObj [(''type'', JStr ''undefined''), (''path'', json_path p)])"
| "toJSON (RPrimitive v p) =
     (case v of
        PString s \<Rightarrow>
          Some (JObj [(''type'', JStr ''string''), (''value'', JStr s), (''path'', json_path p)])
      | PNumber n \<Rightarrow>
          Some (JObj [(''type'', JStr ''number''), (''value'', JNum (of_int n)),
                      (''path'', json_path p)])
      | PBoolean b \<Rightarrow>
          Some (JObj [(''type'', JStr ''boolean''), (''value'', JBool b),
                      (''path'', json_path p)])
      | PBigint n \<Rightarrow> None)"
| "toJSON (RSymbol d p) =
     Some (JObj ([(''type'', JStr ''symbol'')] @ json_opt ''description'' d JStr
                 @ [(''path'', json_path p)]))"
| "toJSON (RFunction n a g ps p) =
     Some (JObj ([(''type'', JStr ''function''), (''name'', JStr n), (''isAsync'', JBool a),
                  (''isGenerator'', JBool g), (''path'', json_path p)]
                 @ json_opt ''parameters'' ps json_params))"
| "toJSON (RArray n gs p) =
     (case those (map (\<lambda>(t, f, c, is).
              map_option (\<lambda>j. JObj [(''type'', j), (''frequency'', JNum f),
                    (''count'', JNum (of_nat c)),
                    (''indices'', JArr (map (\<lambda>i. JNum (of_nat i)) is))]) (toJSON t)) gs) of
        None \<Rightarrow> None
      | Some js \<Rightarrow>
          Some (JObj [(''type'', JStr ''array''), (''length'', JNum (of_nat n)),
                      (''elementTypes'', JArr js), (''path'', json_path p)]))"
| "toJSON (RObject c props syms pr p) =
     (case those_pairs (map (\<lambda>(k, r). (k, toJSON r)) props) of
        None \<Rightarrow> None
      | Some jprops \<Rightarrow>
         (case (case syms of
                  None \<Rightarrow> Some []
                | Some ss \<Rightarrow>
                    map_option (\<lambda>js. [(''symbolProperties'', JObj js)])
                      (those_pairs (map (\<lambda>(k, r). (k, toJSON r)) ss))) of
            None \<Rightarrow> None
          | Some jsyms \<Rightarrow>
              Some (JObj ([(''type'', JStr ''object''), (''constructor'', JStr c),
                           (''path'', json_path p), (''properties'', JObj jprops)]
                          @ jsyms @ json_opt ''prototype'' pr json_prototype))))"
| "toJSON (RAccessor g s p) =
     Some (JObj [(''type'', JStr ''accessor''), (''hasGetter'', JBool g),
                 (''hasSetter'', JBool s), (''path'', json_path p)])"
| "toJSON (RDate v t p) =
     Some (JObj [(''type'', JStr ''Date''), (''value'', JStr v), (''timestamp'', JNum (of_int t)),
                 (''path'', json_path p)])"
| "toJSON (RRegExp s f p) =
     Some (JObj [(''type'', JStr ''RegExp''), (''pattern'', JStr s), (''flags'', JStr f),
                 (''path'', json_path p)])"
| "toJSON (RMap n es p) =
     (case (case es of
              None \<Rightarrow> Some []
            | Some xs \<Rightarrow>
                map_option (\<lambda>js. [(''entries'', JArr js)])
                  (those (map (\<lambda>(k, v).
                      (case toJSON k of
                         None \<Rightarrow> None
                       | Some jk \<Rightarrow>
                           map_option (\<lambda>jv. JObj [(''key'', jk), (''value'', jv)]) (toJSON v)))
                    xs))) of
        None \<Rightarrow> None
      | Some jes \<Rightarrow>
          Some (JObj ([(''type'', JStr ''Map''), (''size'', JNum (of_nat n))] @ jes
                      @ [(''path'', json_path p)])))"
| "toJSON (RSet n vs p) =
     (case (case vs of
              None \<Rightarrow> Some []
            | Some xs \<Rightarrow> map_option (\<lambda>js. [(''values'', JArr js)]) (those (map toJSON xs))) of
        None \<Rightarrow> None
      | Some jvs \<Rightarrow>
          Some (JObj ([(''type'', JStr ''Set''), (''size'', JNum (of_nat n))] @ jvs
                      @ [(''path'', json_path p)])))"
| "toJSON (RPromise p) =
     Some (JObj [(''type'', JStr ''Promise''), (''state'', JStr ''pending''),
                 (''path'', json_path p)])"
| "toJSON (RErrorObject n m s p) =
     Some (JObj ([(''type'', JStr ''Error''), (''name'', JStr n), (''message'', JStr m)]
                 @ json_opt ''stack'' s JStr @ [(''path'', json_path p)]))"
| "toJSON (RTypedArray t l bl bo sh p) =
     Some (JObj [(''type'', JStr t), (''length'', JNum (of_nat l)),
                 (''byteLength'', JNum (of_nat bl)), (''byteOffset'', JNum (of_nat bo)),
                 (''isShared'', JBool sh), (''path'', json_path p)])"
| "toJSON (RCustom t fs p) =
     Some (JObj ([(''type'', JStr t)] @ fs @ [(''path'', json_path p)]))"

section \<open>Baseline handlers\<close>

text \<open>
  Every handler returns \<open>Inr\<close> its result or \<open>Inl\<close> the message of the exception it
  throws, together with the visited set as the call leaves it (the set is mutated in
  place, so additions made before a throw persist). The recursive entry point
  \<open>this.analyze\<close> is the parameter \<open>rec\<close> of the handlers that descend.

  A thrown value is represented by its message: what the \<open>catch\<close> blocks of the source
  compute from it with \<open>error instanceof Error ? error.message : String(error)\<close>. The
  model covers the thrown values for which this expression yields a string. For a thrown
  value on which the expression itself throws (an object without a prototype, an
  \<open>Error\<close> whose \<open>message\<close> getter throws) the \<open>catch\<close> block of the source raises in
  its turn; such values have no representation here.
\<close>

type_synonym analyzeFn = "val \<Rightarrow> AnalyzerContext \<Rightarrow> visited \<Rightarrow> result \<times> visited"

definition handleNull :: "AnalyzerContext \<Rightarrow> result" where
  "handleNull context = RNull (path context)"

definition handleUndefined :: "AnalyzerContext \<Rightarrow> result" where
  "handleUndefined context = RUndefined (path context)"

definition handlePrimitive :: "prim \<Rightarrow> AnalyzerContext \<Rightarrow> result" where
  "handlePrimitive v context = RPrimitive v (path context)"

definition handleSymbol :: "string option \<Rightarrow> AnalyzerContext \<Rightarrow> result" where
  "handleSymbol description context = RSymbol description (path context)"

subsection \<open>Functions\<close>

definition is_space :: "char \<Rightarrow> bool" where
  "is_space c = (c = CHR '' '' \<or> c = CHR 0x09 \<or> c = CHR 0x0A \<or> c = CHR 0x0B
                 \<or> c = CHR 0x0C \<or> c = CHR 0x0D)"

definition trim :: "string \<Rightarrow> string" where
  "trim s = rev (dropWhile is_space (rev (dropWhile is_space s)))"

fun split_on :: "char \<Rightarrow> string \<Rightarrow> string list" where
  "split_on c [] = [[]]"
| "split_on c (x # xs) =
     (if x = c then [] # split_on c xs
      else (case split_on c xs of [] \<Rightarrow> [[x]] | y # ys \<Rightarrow> (x # y) # ys))"

text \<open>The first match of \<open>/\(([\s\S]*?)\)/\<close>: from the first opening parenthesis to the next closing one.\<close>

definition args_match :: "string \<Rightarrow> string option" where
  "args_match funcStr =
     (case dropWhile (\<lambda>c. c \<noteq> CHR ''('') funcStr of
        [] \<Rightarrow> None
      | _ # rest \<Rightarrow>
          if CHR '')'' \<in> set rest then Some (takeWhile (\<lambda>c. c \<noteq> CHR '')'') rest) else None)"

definition analyzeFunctionParameters :: "func \<Rightarrow> params" where
  "analyzeFunctionParameters f =
     (case ftoString f of
        Inl msg \<Rightarrow> Params 0 [] (Some msg)
      | Inr funcStr \<Rightarrow>
          (case args_match funcStr of
             None \<Rightarrow> Params 0 [] None
           | Some g \<Rightarrow>
               (let paramStr = trim g in
                if paramStr = [] then Params 0 [] None
                else (let paramNames =
                            filter (\<lambda>n. n \<noteq> []) (map trim (split_on (CHR '','') paramStr))
                      in Params (length paramNames) paramNames None))))"

definition handleFunction :: "AnalyzerConfig \<Rightarrow> func \<Rightarrow> AnalyzerContext \<Rightarrow> string + result" where
  "handleFunction A f context =
     (case fconstructor f of
        None \<Rightarrow> Inl ''Cannot read properties of undefined''
      | Some c \<Rightarrow>
          Inr (RFunction (if fname f = [] then ''(anonymous)'' else fname f)
                 (c = ''AsyncFunction'') (c = ''GeneratorFunction'')
                 (if includeMethods A then Some (analyzeFunctionParameters f) else None)
                 (path context)))"

subsection \<open>Arrays\<close>

type_synonym typeMap = "(json \<times> result \<times> nat \<times> nat list) list"

fun typeMap_add :: "json \<Rightarrow> result \<Rightarrow> nat \<Rightarrow> typeMap \<Rightarrow> typeMap" where
  "typeMap_add k t i [] = [(k, t, 1, [i])]"
| "typeMap_add k t i ((k', t', c, is) # tm) =
     (if k = k' then (k', t', c + 1, is @ [i]) # tm
      else (k', t', c, is) # typeMap_add k t i tm)"

text \<open>The \<open>forEach\<close> of \<open>analyzeArrayElements\<close>, from index \<open>i\<close> on.\<close>

fun arrayLoop ::
  "analyzeFn \<Rightarrow> AnalyzerContext \<Rightarrow> val list \<Rightarrow> nat \<Rightarrow> typeMap \<Rightarrow> visited
     \<Rightarrow> (string + typeMap) \<times> visited" where
  "arrayLoop rec context [] index tm vis = (Inr tm, vis)"
| "arrayLoop rec context (element # rest) index tm vis =
     (let newContext = context\<lparr>depth := depth context + 1, path := path context @ [KIdx index]\<rparr>;
          (elementType, vis') = rec element newContext vis
      in case toJSON elementType of
           None \<Rightarrow> (Inl ''Do not know how to serialize a BigInt'', vis')
         | Some typeKey \<Rightarrow>
             arrayLoop rec context rest (index + 1) (typeMap_add typeKey elementType index tm) vis')"

text \<open>
  \<open>Array.prototype.sort\<close> is stable, and so is \<open>sort_key\<close>: groups of equal count keep
  the order in which they were first met.
\<close>

definition analyzeArrayElements ::
  "analyzeFn \<Rightarrow> val list \<Rightarrow> AnalyzerContext \<Rightarrow> visited
     \<Rightarrow> (string + (result \<times> rat \<times> nat \<times> nat list) list) \<times> visited" where
  "analyzeArrayElements rec arr context vis =
     (case arrayLoop rec context arr 0 [] vis of
        (Inl msg, vis') \<Rightarrow> (Inl msg, vis')
      | (Inr tm, vis') \<Rightarrow>
          (Inr (sort_key (\<lambda>(t, f, c, is). - int c)
                  (map (\<lambda>(k, t, c, is). (t, of_nat c / of_nat (length arr), c, is)) tm)),
           vis'))"

definition handleArray ::
  "analyzeFn \<Rightarrow> addr \<Rightarrow> val list \<Rightarrow> AnalyzerContext \<Rightarrow> visited \<Rightarrow> (string + result) \<times> visited" where
  "handleArray rec a arr context vis =
     (case analyzeArrayElements rec arr context (insert a vis) of
        (Inl msg, vis') \<Rightarrow> (Inl msg, vis')
      | (Inr elementTypes, vis') \<Rightarrow>
          (Inr (RArray (length arr) elementTypes (path context)), vis'))"

subsection \<open>Generic objects\<close>

text \<open>
  The assignment \<open>record[key] = value\<close> on a result record that started as \<open>{}\<close>:
  a key that is present keeps its place and gets the new value, a new key goes last. The
  key \<open>"__proto__"\<close> is the exception: assigning it an object (every result is one) sets
  the prototype of the record and records no entry.
\<close>

fun upsert :: "string \<Rightarrow> 'a \<Rightarrow> (string \<times> 'a) list \<Rightarrow> (string \<times> 'a) list" where
  "upsert k v [] = [(k, v)]"
| "upsert k v ((k', v') # xs) =
     (if k = k' then (k, v) # xs else (k', v') # upsert k v xs)"

definition record_set :: "string \<Rightarrow> 'a \<Rightarrow> (string \<times> 'a) list \<Rightarrow> (string \<times> 'a) list" where
  "record_set k v xs = (if k = ''__proto__'' then xs else upsert k v xs)"

fun read_slot :: "slot \<Rightarrow> string + val" where
  "read_slot (Data v) = Inr v"
| "read_slot (Accessor None s) = Inr VUndefined"
| "read_slot (Accessor (Some (GetReturn v)) s) = Inr v"
| "read_slot (Accessor (Some (GetThrow msg)) s) = Inl msg"

fun has_get_or_set :: "slot \<Rightarrow> bool" where
  "has_get_or_set (Data v) = False"
| "has_get_or_set (Accessor g s) = (g \<noteq> None \<or> s)"

fun accessor_result :: "slot \<Rightarrow> key list \<Rightarrow> result" where
  "accessor_result (Data v) p = RAccessor False False p"
| "accessor_result (Accessor g s) p = RAccessor (g \<noteq> None) s p"

definition starts_with_hash :: "string \<Rightarrow> bool" where
  "starts_with_hash prop = (case prop of [] \<Rightarrow> False | c # _ \<Rightarrow> c = CHR ''#'')"

text \<open>The loop over \<open>propertyNames\<close> in \<open>handleObject\<close>.\<close>

fun analyzeProperties ::
  "AnalyzerConfig \<Rightarrow> analyzeFn \<Rightarrow> AnalyzerContext \<Rightarrow> property list
     \<Rightarrow> (string \<times> result) list \<Rightarrow> visited \<Rightarrow> (string \<times> result) list \<times> visited" where
  "analyzeProperties A rec context [] properties vis = (properties, vis)"
| "analyzeProperties A rec context (p # ps) properties vis =
     (let prop = pname p in
      if \<not> includePrivateProps A \<and> starts_with_hash prop
      then analyzeProperties A rec context ps properties vis
      else if includeGettersSetters A \<and> has_get_or_set (pslot p)
      then analyzeProperties A rec context ps
             (record_set prop (accessor_result (pslot p) (path context @ [KStr prop])) properties)
             vis
      else (case read_slot (pslot p) of
              Inl msg \<Rightarrow>
                analyzeProperties A rec context ps
                  (record_set prop (RError msg (path context @ [KStr prop])) properties) vis
            | Inr v \<Rightarrow>
                (let newContext =
                       context\<lparr>depth := depth context + 1, path := path context @ [KStr prop]\<rparr>;
                     (r, vis') = rec v newContext vis
                 in analyzeProperties A rec context ps (record_set prop r properties) vis')))"

definition symbol_toString :: "string option \<Rightarrow> string" where
  "symbol_toString d = ''Symbol('' @ (case d of None \<Rightarrow> [] | Some s \<Rightarrow> s) @ '')''"

definition symbol_key :: "string option \<Rightarrow> string" where
  "symbol_key d = (case d of None \<Rightarrow> ''Symbol'' | Some s \<Rightarrow> if s = [] then ''Symbol'' else s)"

text \<open>The loop over \<open>Object.getOwnPropertySymbols(value)\<close>.\<close>

fun analyzeSymbols ::
  "analyzeFn \<Rightarrow> AnalyzerContext \<Rightarrow> (string option \<times> slot) list
     \<Rightarrow> (string \<times> result) list \<Rightarrow> visited \<Rightarrow> (string \<times> result) list \<times> visited" where
  "analyzeSymbols rec context [] symbolProps vis = (symbolProps, vis)"
| "analyzeSymbols rec context ((sy, sl) # ss) symbolProps vis =
     (case read_slot sl of
        Inl msg \<Rightarrow>
          analyzeSymbols rec context ss
            (record_set (symbol_toString sy)
               (RError msg (path context @ [KStr (symbol_key sy)])) symbolProps) vis
      | Inr v \<Rightarrow>
          (let newContext =
                 context\<lparr>depth := depth context + 1,
                         path := path context @ [KStr (symbol_key sy)]\<rparr>;
               (r, vis') = rec v newContext vis
           in analyzeSymbols rec context ss (record_set (symbol_toString sy) r symbolProps) vis'))"

fun prototype_methods :: "(string \<times> pmember) list \<Rightarrow> string + string list" where
  "prototype_methods [] = Inr []"
| "prototype_methods ((name, PMThrow msg) # ms) = Inl msg"
| "prototype_methods ((name, PMFunction) # ms) =
     (case prototype_methods ms of Inl msg \<Rightarrow> Inl msg | Inr names \<Rightarrow> Inr (name # names))"
| "prototype_methods ((name, PMOther) # ms) = prototype_methods ms"

definition prototype_info ::
  "AnalyzerConfig \<Rightarrow> proto \<Rightarrow> string + (string option \<times> string list option) option" where
  "prototype_info A prototype =
     (if includePrototype A then
        (case prototype of
           ProtoClass c ms \<Rightarrow>
             (if includeMethods A then
                (case prototype_methods ms of
                   Inl msg \<Rightarrow> Inl msg
                 | Inr names \<Rightarrow> Inr (Some (c, Some names)))
              else Inr (Some (c, None)))
         | _ \<Rightarrow> Inr None)
      else Inr None)"

definition constructor_or_Object :: "string option \<Rightarrow> string" where
  "constructor_or_Object c = (case c of None \<Rightarrow> ''Object'' | Some n \<Rightarrow> if n = [] then ''Object'' else n)"

definition handleObject ::
  "AnalyzerConfig \<Rightarrow> analyzeFn \<Rightarrow> addr \<Rightarrow> jsobject \<Rightarrow> AnalyzerContext \<Rightarrow> visited
     \<Rightarrow> (string + result) \<times> visited" where
  "handleObject A rec a ob context vis =
     (let propertyNames =
            (if includePrivateProps A then oprops ob else filter penumerable (oprops ob));
          (properties, vis1) = analyzeProperties A rec context propertyNames [] (insert a vis);
          (symbolProps, vis2) = analyzeSymbols rec context (osyms ob) [] vis1
      in case prototype_info A (oproto ob) of
           Inl msg \<Rightarrow> (Inl msg, vis2)
         | Inr pr \<Rightarrow>
             (Inr (RObject (constructor_or_Object (oclass ob)) properties
                     (if symbolProps = [] then None else Some symbolProps) pr (path context)),
              vis2))"

section \<open>Named-composite handlers\<close>

text \<open>The \<open>map\<close> over \<open>value.entries()\<close> in the \<open>Map\<close> handler: key first, then value.\<close>

fun mapEntries ::
  "analyzeFn \<Rightarrow> AnalyzerContext \<Rightarrow> (val \<times> val) list \<Rightarrow> visited
     \<Rightarrow> (result \<times> result) list \<times> visited" where
  "mapEntries rec context [] vis = ([], vis)"
| "mapEntries rec context ((k, v) # es) vis =
     (let (rk, vis1) = rec k (context\<lparr>depth := depth context + 1\<rparr>) vis;
          (rv, vis2) = rec v (context\<lparr>depth := depth context + 1\<rparr>) vis1;
          (rest, vis3) = mapEntries rec context es vis2
      in ((rk, rv) # rest, vis3))"

text \<open>The \<open>map\<close> over the members in the \<open>Set\<close> handler.\<close>

fun setValues ::
  "analyzeFn \<Rightarrow> AnalyzerContext \<Rightarrow> val list \<Rightarrow> visited \<Rightarrow> result list \<times> visited" where
  "setValues rec context [] vis = ([], vis)"
| "setValues rec context (v # vs) vis =
     (let (r, vis1) = rec v (context\<lparr>depth := depth context + 1\<rparr>) vis;
          (rest, vis2) = setValues rec context vs vis1
      in (r # rest, vis2))"

text \<open>
  A built-in handler reads the internal slots of the built-in it was written for. Applied
  to an object without them (a class of the caller's that merely bears a built-in's name),
  its member accesses go wrong in ways that depend on the object's own properties; the
  model lets every such application but \<open>Promise\<close>'s, which never looks at its value,
  throw a TypeError.
\<close>

definition builtInHandler ::
  "AnalyzerConfig \<Rightarrow> analyzeFn \<Rightarrow> builtin \<Rightarrow> jsobject \<Rightarrow> AnalyzerContext \<Rightarrow> visited
     \<Rightarrow> (string + result) \<times> visited" where
  "builtInHandler A rec b ob context vis =
     (case b of
        BDate \<Rightarrow>
          (case ointernal ob of
             IDate (Some (isoString, ts)) \<Rightarrow> (Inr (RDate isoString ts (path context)), vis)
           | IDate None \<Rightarrow> (Inl ''Invalid time value'', vis)
           | _ \<Rightarrow> (Inl ''TypeError'', vis))
      | BRegExp \<Rightarrow>
          (case ointernal ob of
             IRegExp src fl \<Rightarrow> (Inr (RRegExp src fl (path context)), vis)
           | _ \<Rightarrow> (Inl ''TypeError'', vis))
      | BMap \<Rightarrow>
          (case ointernal ob of
             IMap es \<Rightarrow>
               (if maxDepth A > depth context then
                  (let (entries, vis') = mapEntries rec context es vis
                   in (Inr (RMap (length es) (Some entries) (path context)), vis'))
                else (Inr (RMap (length es) None (path context)), vis))
           | _ \<Rightarrow> (Inl ''TypeError'', vis))
      | BSet \<Rightarrow>
          (case ointernal ob of
             ISet vs \<Rightarrow>
               (if maxDepth A > depth context then
                  (let (vals, vis') = setValues rec context vs vis
                   in (Inr (RSet (length vs) (Some vals) (path context)), vis'))
                else (Inr (RSet (length vs) None (path context)), vis))
           | _ \<Rightarrow> (Inl ''TypeError'', vis))
      | BPromise \<Rightarrow> (Inr (RPromise (path context)), vis)
      | BError \<Rightarrow>
          (case ointernal ob of
             IError name msg stack \<Rightarrow> (Inr (RErrorObject name msg stack (path context)), vis)
           | _ \<Rightarrow> (Inl ''TypeError'', vis))
      | BTyped name \<Rightarrow>
          (case ointernal ob of
             ITyped len byteLength byteOffset isShared \<Rightarrow>
               (Inr (RTypedArray name len byteLength byteOffset isShared (path context)), vis)
           | _ \<Rightarrow> (Inl ''TypeError'', vis)))"

definition customHandler ::
  "AnalyzerConfig \<Rightarrow> heap \<Rightarrow> analyzeFn \<Rightarrow> handler \<Rightarrow> addr \<Rightarrow> jsobject \<Rightarrow> AnalyzerContext
     \<Rightarrow> visited \<Rightarrow> (string + result) \<times> visited" where
  "customHandler A H rec h a ob context vis =
     (case h of
        HBuiltin b \<Rightarrow> builtInHandler A rec b ob context vis
      | HCustom f \<Rightarrow> (f H (VRef a) context vis, vis))"

section \<open>The analyzer\<close>

text \<open>
  \<open>value?.constructor?.name\<close> followed by the lookup in \<open>config.customTypes\<close>: a missing
  or empty name finds no handler.
\<close>

definition lookupCustom :: "AnalyzerConfig \<Rightarrow> jsobject \<Rightarrow> handler option" where
  "lookupCustom A ob =
     (case oclass ob of
        None \<Rightarrow> None
      | Some n \<Rightarrow> if n = [] then None else customTypes A n)"

text \<open>
  The body of the \<open>try\<close> block of \<open>analyze\<close>. The baseline table \<open>typeHandlers\<close> holds
  a handler for every \<open>typeof\<close> tag, so the test \<open>typeHandlers.has(baseType)\<close> succeeds;
  a \<open>VRef\<close> is a value whose \<open>typeof\<close> is \<open>"object"\<close>.
\<close>

definition analyze_try ::
  "AnalyzerConfig \<Rightarrow> heap \<Rightarrow> analyzeFn \<Rightarrow> val \<Rightarrow> AnalyzerContext \<Rightarrow> visited
     \<Rightarrow> (string + result) \<times> visited" where
  "analyze_try A H rec v context vis =
     (if depth context > maxDepth A then (Inr (RMaxDepth (path context)), vis)
      else
        (case v of
           VNull \<Rightarrow> (Inr (handleNull context), vis)
         | VUndefined \<Rightarrow> (Inr (handleUndefined context), vis)
         | VPrim p \<Rightarrow> (Inr (handlePrimitive p context), vis)
         | VSymbol d \<Rightarrow> (Inr (handleSymbol d context), vis)
         | VFunction f \<Rightarrow> (handleFunction A f context, vis)
         | VRef a \<Rightarrow>
             (case H a of
                HArray arr \<Rightarrow> handleArray rec a arr context vis
              | HObject ob \<Rightarrow>
                  (if a \<in> vis then (Inr (RCircular (path context)), vis)
                   else
                     (case lookupCustom A ob of
                        Some h \<Rightarrow> customHandler A H rec h a ob context vis
                      | None \<Rightarrow> handleObject A rec a ob context vis)))))"

text \<open>The \<open>catch\<close> block of \<open>analyze\<close>.\<close>

definition analyze_catch ::
  "AnalyzerContext \<Rightarrow> (string + result) \<times> visited \<Rightarrow> result \<times> visited" where
  "analyze_catch context outcome =
     (case outcome of
        (Inl msg, vis) \<Rightarrow> (RError msg (path context), vis)
      | (Inr r, vis) \<Rightarrow> (r, vis))"

definition analyze_step ::
  "AnalyzerConfig \<Rightarrow> heap \<Rightarrow> analyzeFn \<Rightarrow> analyzeFn" where
  "analyze_step A H rec v context vis = analyze_catch context (analyze_try A H rec v context vis)"

text \<open>
  The recursion of \<open>analyze\<close> through its handlers, with the nesting of calls counted
  down. \<open>analyze\<close> starts it with as many levels as the depth bound leaves; lemma
  \<open>analyze_unfold\<close> below shows that this is the recursive function of the source: the
  count never runs out.
\<close>

fun analyze_nest :: "nat \<Rightarrow> AnalyzerConfig \<Rightarrow> heap \<Rightarrow> analyzeFn" where
  "analyze_nest 0 A H v context vis = (RError ''Maximum call stack size exceeded'' (path context), vis)"
| "analyze_nest (Suc n) A H v context vis = analyze_step A H (analyze_nest n A H) v context vis"

definition analyze :: "AnalyzerConfig \<Rightarrow> heap \<Rightarrow> analyzeFn" where
  "analyze A H v context vis =
     analyze_nest (Suc (nat (maxDepth A + 1 - depth context))) A H v context vis"

definition root_context :: AnalyzerContext where
  "root_context = \<lparr> depth = 0, path = [] \<rparr>"

section \<open>Notions used in the properties\<close>

definition descends :: "AnalyzerContext \<Rightarrow> AnalyzerContext \<Rightarrow> bool" where
  "descends context c = (depth c = depth context + 1 \<and> (\<exists>k. path c = path context @ [k]))"


text \<open>
  What the caller-registered handlers of a table are assumed to do: every result one of
  them returns satisfies \<open>P\<close>, a property of the context it was given and of the result.
\<close>

definition custom_results :: "AnalyzerConfig \<Rightarrow> (AnalyzerContext \<Rightarrow> result \<Rightarrow> bool) \<Rightarrow> bool" where
  "custom_results A P =
     (\<forall>n f H v c s r. customTypes A n = Some (HCustom f) \<longrightarrow> f H v c s = Inr r \<longrightarrow> P c r)"


text \<open>Plain object literals, and the analyzer built with a given depth bound.\<close>

definition plain_object :: "property list \<Rightarrow> hobj" where
  "plain_object props =
     HObject \<lparr> oclass = Some ''Object'', oprops = props, osyms = [], oproto = ProtoObject,
               ointernal = INone \<rparr>"

definition data :: "string \<Rightarrow> val \<Rightarrow> property" where
  "data name v = Property name True (Data v)"

definition analyzer_with_depth :: "int \<Rightarrow> AnalyzerConfig" where
  "analyzer_with_depth m = TypeAnalyzer (no_config\<lparr>pc_maxDepth := Some m\<rparr>)"

text \<open>The value \<open>{a: {b: {c: 1}}}\<close>.\<close>

definition heap_abc :: heap where
  "heap_abc = (\<lambda>_. plain_object [])
     (0 := plain_object [data ''a'' (VRef 1)],
      1 := plain_object [data ''b'' (VRef 2)],
      2 := plain_object [data ''c'' (VPrim (PNumber 1))])"

text \<open>
  A stand-in for the recursive analyzer that reports the context it is called with: the
  depth as a number, the path as the result's path.
\<close>

definition probe :: analyzeFn where
  "probe v c s = (RPrimitive (PNumber (depth c)) (path c), s)"

definition object_ab :: jsobject where
  "object_ab = \<lparr> oclass = Some ''Object'',
      oprops = [data ''a'' (VPrim (PNumber 1)), data ''b'' (VPrim (PNumber 2))],
      osyms = [(Some ''tag'', Data VNull)], oproto = ProtoObject, ointernal = INone \<rparr>"


text \<open>
  A handler for a class \<open>Point\<close>, an instance of the class, and an array holding it.
\<close>

definition point_handler :: handler where
  "point_handler = HCustom (\<lambda>H v c s. Inr (RCustom ''Point'' [(''dimensions'', JNum 2)] (path c)))"

definition heap_point :: heap where
  "heap_point = (\<lambda>_. plain_object [])
     (0 := HObject \<lparr> oclass = Some ''Point'',
                     oprops = [data ''x'' (VPrim (PNumber 1)), data ''y'' (VPrim (PNumber 2))],
                     osyms = [], oproto = ProtoClass (Some ''Point'') [(''constructor'', PMFunction)],
                     ointernal = INone \<rparr>,
      1 := HArray [VRef 0])"

text \<open>
  \<open>Map\<close> and \<open>Set\<close> instances. The members of a built-in's prototype are left out:
  the handler of a built-in never reads them.
\<close>

definition map_object :: "(val \<times> val) list \<Rightarrow> hobj" where
  "map_object es =
     HObject \<lparr> oclass = Some ''Map'', oprops = [], osyms = [],
               oproto = ProtoClass (Some ''Map'') [], ointernal = IMap es \<rparr>"

definition set_object :: "val list \<Rightarrow> hobj" where
  "set_object vs =
     HObject \<lparr> oclass = Some ''Set'', oprops = [], osyms = [],
               oproto = ProtoClass (Some ''Set'') [], ointernal = ISet vs \<rparr>"

definition heap_map_set :: heap where
  "heap_map_set = (\<lambda>_. plain_object [])
     (0 := map_object [(VPrim (PString ''k''), VPrim (PNumber 1))],
      1 := set_object [VPrim (PNumber 7)])"

text \<open>
  Values that throw: \<open>{bad: <getter throwing "boom">, good: 1}\<close> at 0; at 1 an object
  whose prototype has a member with a throwing getter; at 2 an object holding it next to a
  boolean; at 3 the array \<open>[1n, 2]\<close>. The analyzer \<open>no_accessors\<close> invokes getters.
\<close>

definition heap_throw :: heap where
  "heap_throw = (\<lambda>_. plain_object [])
     (0 := plain_object [Property ''bad'' True (Accessor (Some (GetThrow ''boom'')) False),
                         data ''good'' (VPrim (PNumber 1))],
      1 := HObject \<lparr> oclass = Some ''Odd'', oprops = [], osyms = [],
                     oproto = ProtoClass (Some ''Odd'') [(''constructor'', PMFunction), (''m'', PMThrow ''bang'')],
                     ointernal = INone \<rparr>,
      2 := plain_object [data ''first'' (VRef 1), data ''second'' (VPrim (PBoolean True))],
      3 := HArray [VPrim (PBigint 1), VPrim (PNumber 2)])"

definition no_accessors :: AnalyzerConfig where
  "no_accessors = TypeAnalyzer (no_config\<lparr>pc_includeGettersSetters := Some False\<rparr>)"

text \<open>
  The paths of a result tree, as the code builds them. \<open>paths_ok q r\<close>: the result \<open>r\<close>
  carries the path \<open>q\<close>; below an object, the result of a property carries \<open>q\<close> with the
  property's name appended, the result of a symbol property \<open>q\<close> with the symbol's
  description (or \<open>"Symbol"\<close>) appended; below an array, the type of a group carries \<open>q\<close>
  with the group's first index appended; below a \<open>Map\<close> or a \<open>Set\<close>, the results of
  keys, values and members carry \<open>q\<close> itself.
\<close>

definition symbol_path_key :: "string \<Rightarrow> string" where
  "symbol_path_key k = (let d = butlast (drop 7 k) in if d = [] then ''Symbol'' else d)"

fun paths_ok :: "key list \<Rightarrow> result \<Rightarrow> bool" where
  "paths_ok q (RArray n gs p) =
     (p = q \<and> (\<forall>(t, f, c, is) \<in> set gs. is \<noteq> [] \<and> paths_ok (q @ [KIdx (hd is)]) t))"
| "paths_ok q (RObject c props syms pr p) =
     (p = q \<and> (\<forall>(k, r) \<in> set props. paths_ok (q @ [KStr k]) r)
      \<and> (case syms of
            None \<Rightarrow> True
          | Some ss \<Rightarrow> \<forall>(k, r) \<in> set ss. paths_ok (q @ [KStr (symbol_path_key k)]) r))"
| "paths_ok q (RMap n es p) =
     (p = q \<and> (case es of
                  None \<Rightarrow> True
                | Some xs \<Rightarrow> \<forall>(k, v) \<in> set xs. paths_ok q k \<and> paths_ok q v))"
| "paths_ok q (RSet n vs p) =
     (p = q \<and> (case vs of None \<Rightarrow> True | Some xs \<Rightarrow> \<forall>r \<in> set xs. paths_ok q r))"
| "paths_ok q r = (result_path r = q)"

definition returns_paths :: "analyzeFn \<Rightarrow> bool" where
  "returns_paths rec = (\<forall>v c s. paths_ok (path c) (fst (rec v c s)))"

text \<open>
  The paths of a result tree, as the specification words them: every nested result,
  those of \<open>Map\<close> entries and \<open>Set\<close> members included, carries its parent's path with
  exactly one key or index appended.
\<close>

definition extends_by_one :: "key list \<Rightarrow> key list \<Rightarrow> bool" where
  "extends_by_one parent p = (p \<noteq> [] \<and> butlast p = parent)"

fun paths_as_claimed :: "result \<Rightarrow> bool" where
  "paths_as_claimed (RArray n gs p) =
     (\<forall>(t, f, c, is) \<in> set gs. extends_by_one p (result_path t) \<and> paths_as_claimed t)"
| "paths_as_claimed (RObject c props syms pr p) =
     ((\<forall>(k, r) \<in> set props. extends_by_one p (result_path r) \<and> paths_as_claimed r)
      \<and> (case syms of
            None \<Rightarrow> True
          | Some ss \<Rightarrow> \<forall>(k, r) \<in> set ss. extends_by_one p (result_path r) \<and> paths_as_claimed r))"
| "paths_as_claimed (RMap n es p) =
     (case es of
        None \<Rightarrow> True
      | Some xs \<Rightarrow>
          \<forall>(k, v) \<in> set xs. extends_by_one p (result_path k) \<and> paths_as_claimed k
                             \<and> extends_by_one p (result_path v) \<and> paths_as_claimed v)"
| "paths_as_claimed (RSet n vs p) =
     (case vs of
        None \<Rightarrow> True
      | Some xs \<Rightarrow> \<forall>r \<in> set xs. extends_by_one p (result_path r) \<and> paths_as_claimed r)"
| "paths_as_claimed r = True"

text \<open>
  The addresses the analyzer marks as visited: arrays, and objects for whose class name the
  named-composite table has no handler. \<open>grows A H s s'\<close>: the visited set \<open>s'\<close> is \<open>s\<close>
  with such addresses added.
\<close>

definition tracked :: "AnalyzerConfig \<Rightarrow> heap \<Rightarrow> addr \<Rightarrow> bool" where
  "tracked A H a = (case H a of HArray arr \<Rightarrow> True | HObject ob \<Rightarrow> lookupCustom A ob = None)"

definition grows :: "AnalyzerConfig \<Rightarrow> heap \<Rightarrow> visited \<Rightarrow> visited \<Rightarrow> bool" where
  "grows A H s s' = (s \<subseteq> s' \<and> (\<forall>a \<in> s' - s. tracked A H a))"

definition rec_grows :: "AnalyzerConfig \<Rightarrow> heap \<Rightarrow> analyzeFn \<Rightarrow> bool" where
  "rec_grows A H rec = (\<forall>v c s. grows A H s (snd (rec v c s)))"

text \<open>A \<open>Map\<close> that holds itself as a value.\<close>

definition heap_self_map :: heap where
  "heap_self_map = (\<lambda>_. plain_object [])(0 := map_object [(VPrim (PString ''self''), VRef 0)])"

text \<open>
  Shared references that are not cycles: at 0 the object \<open>{x: d, y: d}\<close> with \<open>d\<close> the
  \<open>Date\<close> at 1; at 2 the object \<open>{x: s, y: {z: s}}\<close> with \<open>s\<close> the empty object at 3;
  at 5 the object \<open>{x: s, y: s}\<close>.
\<close>

definition heap_shared :: heap where
  "heap_shared = (\<lambda>_. plain_object [])
     (0 := plain_object [data ''x'' (VRef 1), data ''y'' (VRef 1)],
      1 := HObject \<lparr> oclass = Some ''Date'', oprops = [], osyms = [],
                     oproto = ProtoClass (Some ''Date'') [],
                     ointernal = IDate (Some (''2024-01-01T00:00:00.000Z'', 1704067200000)) \<rparr>,
      2 := plain_object [data ''x'' (VRef 3), data ''y'' (VRef 4)],
      3 := plain_object [],
      4 := plain_object [data ''z'' (VRef 3)],
      5 := plain_object [data ''x'' (VRef 3), data ''y'' (VRef 3)])"

text \<open>The array \<open>[1, "a", 1]\<close> at 0, and at 1 an array that holds itself.\<close>

definition heap_arrays :: heap where
  "heap_arrays = (\<lambda>_. plain_object [])
     (0 := HArray [VPrim (PNumber 1), VPrim (PString ''a''), VPrim (PNumber 1)],
      1 := HArray [VRef 1])"

text \<open>The \<open>path\<close> member of a serialized result: the last member of that name.\<close>

fun serialized_path :: "json \<Rightarrow> json option" where
  "serialized_path (JObj members) = map_of (rev members) ''path''"
| "serialized_path _ = None"

text \<open>
  The branches of a container: the recursive calls its handler makes, in the order in which
  it makes them, each a value with the context it is analyzed in. \<open>child_context\<close> is
  the context of a property or an element, \<open>entry_context\<close> that of a \<open>Map\<close> entry or
  a \<open>Set\<close> member, whose path is the container's.
\<close>

type_synonym branch = "val \<times> AnalyzerContext"

definition child_context :: "AnalyzerContext \<Rightarrow> key \<Rightarrow> AnalyzerContext" where
  "child_context context k = context\<lparr>depth := depth context + 1, path := path context @ [k]\<rparr>"

definition entry_context :: "AnalyzerContext \<Rightarrow> AnalyzerContext" where
  "entry_context context = context\<lparr>depth := depth context + 1\<rparr>"

text \<open>
  The visited set after a list of branches has been analyzed, one after the other, each
  from the set the one before it left.
\<close>

fun threaded :: "analyzeFn \<Rightarrow> branch list \<Rightarrow> visited \<Rightarrow> visited" where
  "threaded rec [] vis = vis"
| "threaded rec ((v, c) # bs) vis = threaded rec bs (snd (rec v c vis))"

text \<open>
  The \<open>propertyNames\<close> of \<open>handleObject\<close>, and the value its loop hands to the
  analyzer for a property, if any: none for a property that is skipped, reported as an
  accessor, or whose read throws.
\<close>

definition propertyNames :: "AnalyzerConfig \<Rightarrow> jsobject \<Rightarrow> property list" where
  "propertyNames A ob = (if includePrivateProps A then oprops ob else filter penumerable (oprops ob))"



fun symbol_branches :: "AnalyzerContext \<Rightarrow> (string option \<times> slot) list \<Rightarrow> branch list" where
  "symbol_branches context [] = []"
| "symbol_branches context ((sy, sl) # ss) =
     (case read_slot sl of
        Inl msg \<Rightarrow> symbol_branches context ss
      | Inr v \<Rightarrow> (v, child_context context (KStr (symbol_key sy))) # symbol_branches context ss)"

fun element_branches :: "AnalyzerContext \<Rightarrow> val list \<Rightarrow> nat \<Rightarrow> branch list" where
  "element_branches context [] index = []"
| "element_branches context (element # rest) index =
     (element, child_context context (KIdx index)) # element_branches context rest (index + 1)"

fun entry_branches :: "AnalyzerContext \<Rightarrow> (val \<times> val) list \<Rightarrow> branch list" where
  "entry_branches context [] = []"
| "entry_branches context ((k, v) # es) =
     (k, entry_context context) # (v, entry_context context) # entry_branches context es"

definition member_branches :: "AnalyzerContext \<Rightarrow> val list \<Rightarrow> branch list" where
  "member_branches context vs = map (\<lambda>v. (v, entry_context context)) vs"

text \<open>
  Containers whose branches share the empty object \<open>s\<close> at 0: at 1 the array \<open>[s, s]\<close>;
  at 2 the \<open>Map\<close> with the one entry \<open>s \<mapsto> s\<close>; at 3 the \<open>Set\<close> of \<open>{u: s}\<close>
  (at 4) and \<open>s\<close>; at 5 the object \<open>{x: s, [Symbol("tag")]: s}\<close>; at 6 the object
  \<open>{x: {u: s}, y: {z: s}}\<close>.
\<close>

definition heap_branches :: heap where
  "heap_branches = (\<lambda>_. plain_object [])
     (0 := plain_object [],
      1 := HArray [VRef 0, VRef 0],
      2 := map_object [(VRef 0, VRef 0)],
      3 := set_object [VRef 4, VRef 0],
      4 := plain_object [data ''u'' (VRef 0)],
      5 := HObject \<lparr> oclass = Some ''Object'', oprops = [data ''x'' (VRef 0)],
                     osyms = [(Some ''tag'', Data (VRef 0))], oproto = ProtoObject,
                     ointernal = INone \<rparr>,
      6 := plain_object [data ''x'' (VRef 4), data ''y'' (VRef 7)],
      7 := plain_object [data ''z'' (VRef 0)])"

section \<open>The recursion of the analyzer\<close>

lemma arrayLoop_cong:
  assumes "\<And>v c s. descends context c \<Longrightarrow> rec v c s = rec' v c s"
  shows "arrayLoop rec context xs i tm vis = arrayLoop rec' context xs i tm vis"
proof (induction xs arbitrary: i tm vis)
  case Nil
  show ?case by simp
next
  case (Cons x xs)
  have d: "descends context (context\<lparr>depth := depth context + 1, path := path context @ [KIdx i]\<rparr>)"
    by (simp add: descends_def)
  show ?case
    by (simp add: assms[OF d] Cons.IH split: prod.splits option.splits)
qed

lemma analyzeProperties_cong:
  assumes "\<And>v c s. descends context c \<Longrightarrow> rec v c s = rec' v c s"
  shows "analyzeProperties A rec context ps acc vis = analyzeProperties A rec' context ps acc vis"
proof (induction ps arbitrary: acc vis)
  case Nil
  show ?case by simp
next
  case (Cons p ps)
  have d: "descends context (context\<lparr>depth := depth context + 1, path := path context @ [KStr (pname p)]\<rparr>)"
    by (simp add: descends_def)
  show ?case
    by (simp add: assms[OF d] Cons.IH Let_def split: prod.splits sum.splits)
qed

lemma analyzeSymbols_cong:
  assumes "\<And>v c s. descends context c \<Longrightarrow> rec v c s = rec' v c s"
  shows "analyzeSymbols rec context ss acc vis = analyzeSymbols rec' context ss acc vis"
proof (induction ss arbitrary: acc vis)
  case Nil
  show ?case by simp
next
  case (Cons p ss)
  obtain sy sl where p: "p = (sy, sl)" by (cases p)
  have d: "descends context (context\<lparr>depth := depth context + 1, path := path context @ [KStr (symbol_key sy)]\<rparr>)"
    by (simp add: descends_def)
  show ?case
    by (simp add: p assms[OF d] Cons.IH Let_def split: prod.splits sum.splits)
qed

lemma mapEntries_cong:
  assumes "\<And>v c s. depth c = depth context + 1 \<Longrightarrow> path c = path context \<Longrightarrow> rec v c s = rec' v c s"
  shows "mapEntries rec context es vis = mapEntries rec' context es vis"
proof (induction es arbitrary: vis)
  case Nil
  show ?case by simp
next
  case (Cons e es)
  obtain k v where e: "e = (k, v)" by (cases e)
  have r: "\<And>x s. rec x (context\<lparr>depth := depth context + 1\<rparr>) s = rec' x (context\<lparr>depth := depth context + 1\<rparr>) s"
    by (rule assms) simp_all
  show ?case
    by (simp add: e r Cons.IH split: prod.splits)
qed

lemma setValues_cong:
  assumes "\<And>v c s. depth c = depth context + 1 \<Longrightarrow> path c = path context \<Longrightarrow> rec v c s = rec' v c s"
  shows "setValues rec context vs vis = setValues rec' context vs vis"
proof (induction vs arbitrary: vis)
  case Nil
  show ?case by simp
next
  case (Cons v vs)
  have r: "\<And>x s. rec x (context\<lparr>depth := depth context + 1\<rparr>) s = rec' x (context\<lparr>depth := depth context + 1\<rparr>) s"
    by (rule assms) simp_all
  show ?case
    by (simp add: r Cons.IH split: prod.splits)
qed

lemma handleObject_cong:
  assumes "\<And>v c s. descends context c \<Longrightarrow> rec v c s = rec' v c s"
  shows "handleObject A rec a ob context vis = handleObject A rec' a ob context vis"
  unfolding handleObject_def
  by (simp add: analyzeProperties_cong[OF assms]
      analyzeSymbols_cong[OF assms])

lemma handleArray_cong:
  assumes "\<And>v c s. descends context c \<Longrightarrow> rec v c s = rec' v c s"
  shows "handleArray rec a arr context vis = handleArray rec' a arr context vis"
  unfolding handleArray_def analyzeArrayElements_def
  by (simp add: arrayLoop_cong[OF assms])

lemma builtInHandler_cong:
  assumes "\<And>v c s. maxDepth A > depth context \<Longrightarrow> depth c = depth context + 1 \<Longrightarrow> path c = path context \<Longrightarrow> rec v c s = rec' v c s"
  shows "builtInHandler A rec b ob context vis = builtInHandler A rec' b ob context vis"
proof (cases "maxDepth A > depth context")
  case True
  have m: "\<And>es s. mapEntries rec context es s = mapEntries rec' context es s"
    by (rule mapEntries_cong) (simp add: assms True)
  have s: "\<And>vs s. setValues rec context vs s = setValues rec' context vs s"
    by (rule setValues_cong) (simp add: assms True)
  show ?thesis
    by (simp add: builtInHandler_def m s split: builtin.splits internal.splits)
next
  case False
  then show ?thesis
    by (simp add: builtInHandler_def split: builtin.splits internal.splits)
qed

lemma analyze_try_cong:
  assumes "\<And>v c s. depth context \<le> maxDepth A \<Longrightarrow> depth c = depth context + 1 \<Longrightarrow> rec v c s = rec' v c s"
  shows "analyze_try A H rec v context vis = analyze_try A H rec' v context vis"
proof (cases "depth context > maxDepth A")
  case True
  then show ?thesis by (simp add: analyze_try_def)
next
  case False
  then have le: "depth context \<le> maxDepth A" by simp
  have r: "\<And>v c s. depth c = depth context + 1 \<Longrightarrow> rec v c s = rec' v c s"
    using assms le by blast
  have a: "\<And>a arr s. handleArray rec a arr context s = handleArray rec' a arr context s"
    by (rule handleArray_cong) (simp add: r descends_def)
  have b: "\<And>b ob s. builtInHandler A rec b ob context s = builtInHandler A rec' b ob context s"
    by (rule builtInHandler_cong) (simp add: r)
  have c: "\<And>a ob s. handleObject A rec a ob context s = handleObject A rec' a ob context s"
    by (rule handleObject_cong) (simp add: r descends_def)
  show ?thesis
    by (simp add: analyze_try_def customHandler_def a b c
        split: val.splits hobj.splits option.splits handler.splits)
qed

lemma analyze_unfold:
  "analyze A H v context vis = analyze_step A H (analyze A H) v context vis"
proof -
  let ?n = "nat (maxDepth A + 1 - depth context)"
  have "analyze A H v context vis = analyze_step A H (analyze_nest ?n A H) v context vis"
    by (simp add: analyze_def)
  also have "analyze_try A H (analyze_nest ?n A H) v context vis
      = analyze_try A H (analyze A H) v context vis"
  proof (rule analyze_try_cong)
    fix v' :: val and c :: AnalyzerContext and s :: visited
    assume le: "depth context \<le> maxDepth A" and d: "depth c = depth context + 1"
    have "?n = Suc (nat (maxDepth A + 1 - depth c))"
      using le d by simp
    then show "analyze_nest ?n A H v' c s = analyze A H v' c s"
      by (simp only: analyze_def)
  qed
  then have "analyze_step A H (analyze_nest ?n A H) v context vis
      = analyze_step A H (analyze A H) v context vis"
    by (simp add: analyze_step_def)
  finally show ?thesis .
qed

lemma analyzeArrayElements_cong:
  assumes "\<And>v c s. descends context c \<Longrightarrow> rec v c s = rec' v c s"
  shows "analyzeArrayElements rec arr context vis = analyzeArrayElements rec' arr context vis"
  unfolding analyzeArrayElements_def
  by (simp add: arrayLoop_cong[OF assms])

section \<open>Dispatch\<close>

lemma analyze_array:
  "H a = HArray arr \<Longrightarrow> depth context \<le> maxDepth A \<Longrightarrow>
   analyze A H (VRef a) context vis = analyze_catch context (handleArray (analyze A H) a arr context vis)"
  by (subst analyze_unfold) (simp add: analyze_step_def analyze_try_def)


lemma analyze_custom:
  "H a = HObject ob \<Longrightarrow> a \<notin> vis \<Longrightarrow> depth context \<le> maxDepth A \<Longrightarrow> lookupCustom A ob = Some h \<Longrightarrow>
   analyze A H (VRef a) context vis
     = analyze_catch context (customHandler A H (analyze A H) h a ob context vis)"
  by (subst analyze_unfold) (simp add: analyze_step_def analyze_try_def)

lemma analyze_generic:
  "H a = HObject ob \<Longrightarrow> a \<notin> vis \<Longrightarrow> depth context \<le> maxDepth A \<Longrightarrow> lookupCustom A ob = None \<Longrightarrow>
   analyze A H (VRef a) context vis
     = analyze_catch context (handleObject A (analyze A H) a ob context vis)"
  by (subst analyze_unfold) (simp add: analyze_step_def analyze_try_def)

lemma analyze_primitive_table:
  assumes "\<forall>a. v \<noteq> VRef a"
    and "maxDepth A' = maxDepth A" and "includeMethods A' = includeMethods A"
  shows "analyze A' H v context vis = analyze A H v context vis"
  using assms
  by (cases v) (simp_all add: analyze_unfold[of _ _ VNull] analyze_unfold[of _ _ VUndefined]
      analyze_unfold[of _ _ "VPrim p" for p] analyze_unfold[of _ _ "VSymbol d" for d]
      analyze_unfold[of _ _ "VFunction f" for f]
      analyze_step_def analyze_try_def handleFunction_def)

section \<open>The shape of handler results\<close>

lemma handleArray_shape:
  "handleArray rec a arr context vis = (Inr r, vis') \<Longrightarrow> \<exists>gs. r = RArray (length arr) gs (path context)"
  by (auto simp: handleArray_def split: prod.splits sum.splits)

lemma handleObject_shape:
  "handleObject A rec a ob context vis = (Inr r, vis') \<Longrightarrow>
     \<exists>props syms pr. r = RObject (constructor_or_Object (oclass ob)) props syms pr (path context)"
  by (auto simp: handleObject_def Let_def split: prod.splits sum.splits)

lemma handleFunction_shape:
  "handleFunction A f context = Inr r \<Longrightarrow> \<exists>n a g ps. r = RFunction n a g ps (path context)"
  by (auto simp: handleFunction_def split: option.splits)


lemma lookupCustom_Some:
  "lookupCustom A ob = Some h \<Longrightarrow> \<exists>n. n \<noteq> [] \<and> oclass ob = Some n \<and> customTypes A n = Some h"
  by (auto simp: lookupCustom_def split: option.splits if_splits)


section \<open>Loops of the handlers\<close>



section \<open>Invariants of the loops\<close>

lemma upsert_ball:
  "\<forall>(k0, r0) \<in> set acc. G k0 r0 \<Longrightarrow> G k v \<Longrightarrow> \<forall>(k0, r0) \<in> set (upsert k v acc). G k0 r0"
  by (induction acc) (auto split: if_splits)

lemma record_set_ball:
  "\<forall>(k0, r0) \<in> set acc. G k0 r0 \<Longrightarrow> G k v \<Longrightarrow> \<forall>(k0, r0) \<in> set (record_set k v acc). G k0 r0"
  by (simp add: record_set_def upsert_ball)

lemma analyzeProperties_invariant:
  assumes acc: "\<forall>(k0, r0) \<in> set acc. G k0 r0"
    and r: "\<And>k v s. G k (fst (rec v (context\<lparr>depth := depth context + 1,
                                             path := path context @ [KStr k]\<rparr>) s))"
    and a: "\<And>k sl. G k (accessor_result sl (path context @ [KStr k]))"
    and e: "\<And>k msg. G k (RError msg (path context @ [KStr k]))"
  shows "\<forall>(k0, r0) \<in> set (fst (analyzeProperties A rec context ps acc vis)). G k0 r0"
  using acc
proof (induction ps arbitrary: acc vis)
  case Nil
  then show ?case by simp
next
  case (Cons p ps)
  note ih = Cons.IH
  have i1: "\<forall>(k0, r0) \<in> set (fst (analyzeProperties A rec context ps acc s)). G k0 r0" for s
    by (rule ih) (rule Cons.prems)
  have i2: "\<forall>(k0, r0) \<in> set (fst (analyzeProperties A rec context ps (record_set (pname p) y acc) s)).
              G k0 r0" if "G (pname p) y" for y s
    by (rule ih) (rule record_set_ball[OF Cons.prems that])
  show ?case
  proof (cases "\<not> includePrivateProps A \<and> starts_with_hash (pname p)")
    case True
    then show ?thesis using i1 by simp
  next
    case False
    then have keep: "(\<not> includePrivateProps A \<and> starts_with_hash (pname p)) = False" by simp
    show ?thesis
    proof (cases "includeGettersSetters A \<and> has_get_or_set (pslot p)")
      case True
      then show ?thesis using i2[OF a] by (simp add: Let_def keep)
    next
      case False
      then have acc: "(includeGettersSetters A \<and> has_get_or_set (pslot p)) = False" by simp
      show ?thesis
      proof (cases "read_slot (pslot p)")
        case (Inl msg)
        then show ?thesis using i2[OF e] by (simp add: Let_def keep acc)
      next
        case (Inr v)
        then show ?thesis using i2[OF r] by (simp add: Let_def split_beta keep acc)
      qed
    qed
  qed
qed

lemma analyzeSymbols_invariant:
  assumes acc: "\<forall>(k0, r0) \<in> set acc. G k0 r0"
    and r: "\<And>sy v s. G (symbol_toString sy)
               (fst (rec v (context\<lparr>depth := depth context + 1,
                                    path := path context @ [KStr (symbol_key sy)]\<rparr>) s))"
    and e: "\<And>sy msg. G (symbol_toString sy) (RError msg (path context @ [KStr (symbol_key sy)]))"
  shows "\<forall>(k0, r0) \<in> set (fst (analyzeSymbols rec context ss acc vis)). G k0 r0"
  using acc
proof (induction ss arbitrary: acc vis)
  case Nil
  then show ?case by simp
next
  case (Cons p ss)
  obtain sy sl where p: "p = (sy, sl)" by (cases p)
  have i2: "\<forall>(k0, r0) \<in> set (fst (analyzeSymbols rec context ss (record_set (symbol_toString sy) y acc) s)).
              G k0 r0" if "G (symbol_toString sy) y" for y s
    by (rule Cons.IH) (rule record_set_ball[OF Cons.prems that])
  show ?case
  proof (cases "read_slot sl")
    case (Inl msg)
    then show ?thesis using p i2[OF e] by simp
  next
    case (Inr v)
    then show ?thesis using p i2[OF r] by (simp add: Let_def split_beta)
  qed
qed

lemma typeMap_add_invariant:
  assumes "\<forall>(k, t, c, is) \<in> set tm. is \<noteq> [] \<and> G (hd is) t" and "G i t0"
  shows "\<forall>(k, t, c, is) \<in> set (typeMap_add key t0 i tm). is \<noteq> [] \<and> G (hd is) t"
  using assms by (induction tm) (auto split: if_splits)

lemma arrayLoop_invariant:
  assumes run: "arrayLoop rec context xs i tm vis = (Inr tm', vis')"
    and tm: "\<forall>(k, t, c, is) \<in> set tm. is \<noteq> [] \<and> G (hd is) t"
    and r: "\<And>x j s. G j (fst (rec x (context\<lparr>depth := depth context + 1,
                                             path := path context @ [KIdx j]\<rparr>) s))"
  shows "\<forall>(k, t, c, is) \<in> set tm'. is \<noteq> [] \<and> G (hd is) t"
  using run tm
proof (induction xs arbitrary: i tm vis)
  case Nil
  then show ?case by simp
next
  case (Cons x xs)
  let ?c = "context\<lparr>depth := depth context + 1, path := path context @ [KIdx i]\<rparr>"
  obtain t s where call: "rec x ?c vis = (t, s)" by (cases "rec x ?c vis")
  have g: "G i t" using r[of i x vis] call by simp
  show ?case
  proof (cases "toJSON t")
    case None
    with Cons.prems(1) call show ?thesis by simp
  next
    case (Some key)
    with Cons.prems(1) call
    have "arrayLoop rec context xs (i + 1) (typeMap_add key t i tm) s = (Inr tm', vis')"
      by simp
    then show ?thesis
      by (rule Cons.IH) (rule typeMap_add_invariant[OF Cons.prems(2) g])
  qed
qed

lemma analyzeArrayElements_invariant:
  assumes run: "analyzeArrayElements rec arr context vis = (Inr gs, vis')"
    and r: "\<And>x j s. G j (fst (rec x (context\<lparr>depth := depth context + 1,
                                             path := path context @ [KIdx j]\<rparr>) s))"
  shows "\<forall>(t, f, c, is) \<in> set gs. is \<noteq> [] \<and> G (hd is) t"
proof -
  obtain out s where loop: "arrayLoop rec context arr 0 [] vis = (out, s)"
    by (cases "arrayLoop rec context arr 0 [] vis")
  with run obtain tm where out: "out = Inr tm"
    and gs: "gs = sort_key (\<lambda>(t, f, c, is). - int c)
                    (map (\<lambda>(k, t, c, is). (t, of_nat c / of_nat (length arr), c, is)) tm)"
    by (cases out) (auto simp: analyzeArrayElements_def)
  have "\<forall>(k, t, c, is) \<in> set tm. is \<noteq> [] \<and> G (hd is) t"
  proof (rule arrayLoop_invariant[where G = G and tm = "[]"])
    show "arrayLoop rec context arr 0 [] vis = (Inr tm, s)" using loop out by simp
    show "\<forall>(k, t, c, is) \<in> set []. is \<noteq> [] \<and> G (hd is) t" by simp
    show "G j (fst (rec x (context\<lparr>depth := depth context + 1,
                                  path := path context @ [KIdx j]\<rparr>) s))" for x j s
      by (rule r)
  qed
  then show ?thesis
    by (auto simp: gs)
qed

lemma mapEntries_invariant:
  assumes "\<And>v s. G (fst (rec v (context\<lparr>depth := depth context + 1\<rparr>) s))"
  shows "\<forall>x \<in> set (fst (mapEntries rec context es vis)). G (fst x) \<and> G (snd x)"
proof (induction es arbitrary: vis)
  case Nil
  show ?case by simp
next
  case (Cons e es)
  obtain k v where e: "e = (k, v)" by (cases e)
  show ?case
    by (simp add: e split_beta assms Cons.IH)
qed

lemma setValues_invariant:
  assumes "\<And>v s. G (fst (rec v (context\<lparr>depth := depth context + 1\<rparr>) s))"
  shows "\<forall>x \<in> set (fst (setValues rec context vs vis)). G x"
proof (induction vs arbitrary: vis)
  case Nil
  show ?case by simp
next
  case (Cons v vs)
  show ?case
    by (simp add: split_beta assms Cons.IH)
qed

section \<open>Paths of results\<close>

lemma paths_ok_path: "paths_ok q r \<Longrightarrow> result_path r = q"
  by (cases r) auto

lemma symbol_path_key_toString: "symbol_path_key (symbol_toString d) = symbol_key d"
  by (cases d) (simp_all add: symbol_path_key_def symbol_toString_def symbol_key_def)

lemma paths_ok_accessor: "paths_ok p (accessor_result sl p)"
  by (cases sl) simp_all

lemma returns_pathsD:
  "returns_paths rec \<Longrightarrow> path c = q \<Longrightarrow> paths_ok q (fst (rec v c s))"
  by (auto simp: returns_paths_def)

lemma handleObject_paths:
  assumes rec: "returns_paths rec"
    and run: "handleObject A rec a ob context vis = (Inr r, vis')"
  shows "paths_ok (path context) r"
proof -
  let ?names = "if includePrivateProps A then oprops ob else filter penumerable (oprops ob)"
  let ?P = "analyzeProperties A rec context ?names [] (insert a vis)"
  let ?S = "analyzeSymbols rec context (osyms ob) [] (snd ?P)"
  have props: "\<forall>(k, x) \<in> set (fst ?P). paths_ok (path context @ [KStr k]) x"
    by (rule analyzeProperties_invariant)
      (simp_all add: returns_pathsD[OF rec] paths_ok_accessor)
  have syms: "\<forall>(k, x) \<in> set (fst ?S). paths_ok (path context @ [KStr (symbol_path_key k)]) x"
    by (rule analyzeSymbols_invariant)
      (simp_all add: returns_pathsD[OF rec] symbol_path_key_toString)
  from run obtain pr where
    r: "r = RObject (constructor_or_Object (oclass ob)) (fst ?P)
            (if fst ?S = [] then None else Some (fst ?S)) pr (path context)"
    by (auto simp: handleObject_def Let_def split_beta split: sum.splits)
  show ?thesis
    using props syms by (simp add: r)
qed

lemma handleArray_paths:
  assumes rec: "returns_paths rec"
    and run: "handleArray rec a arr context vis = (Inr r, vis')"
  shows "paths_ok (path context) r"
proof -
  obtain out s where el: "analyzeArrayElements rec arr context (insert a vis) = (out, s)"
    by (cases "analyzeArrayElements rec arr context (insert a vis)")
  with run obtain gs where out: "out = Inr gs" and r: "r = RArray (length arr) gs (path context)"
    by (cases out) (auto simp: handleArray_def)
  have "\<forall>(t, f, c, is) \<in> set gs. is \<noteq> [] \<and> paths_ok (path context @ [KIdx (hd is)]) t"
  proof (rule analyzeArrayElements_invariant[where G = "\<lambda>j t. paths_ok (path context @ [KIdx j]) t"])
    show "analyzeArrayElements rec arr context (insert a vis) = (Inr gs, s)"
      using el out by simp
    show "paths_ok (path context @ [KIdx j])
            (fst (rec x (context\<lparr>depth := depth context + 1,
                                 path := path context @ [KIdx j]\<rparr>) s))" for x j s
      by (simp add: returns_pathsD[OF rec])
  qed
  then show ?thesis by (simp add: r)
qed

lemma builtInHandler_paths:
  assumes rec: "returns_paths rec"
    and run: "builtInHandler A rec b ob context vis = (Inr r, vis')"
  shows "paths_ok (path context) r"
proof -
  have m: "\<forall>x \<in> set (fst (mapEntries rec context es s)).
             paths_ok (path context) (fst x) \<and> paths_ok (path context) (snd x)" for es s
    by (rule mapEntries_invariant) (simp add: returns_pathsD[OF rec])
  have v: "\<forall>x \<in> set (fst (setValues rec context vs s)). paths_ok (path context) x" for vs s
    by (rule setValues_invariant) (simp add: returns_pathsD[OF rec])
  show ?thesis
  proof (cases b)
    case BMap
    with run m show ?thesis
      by (auto simp: builtInHandler_def split_beta split: internal.splits if_splits)
  next
    case BSet
    with run v show ?thesis
      by (auto simp: builtInHandler_def split_beta split: internal.splits if_splits)
  qed (use run in \<open>auto simp: builtInHandler_def split: internal.splits option.splits\<close>)
qed

lemma analyze_try_paths:
  assumes custom: "custom_results A (\<lambda>c r. paths_ok (path c) r)"
    and rec: "returns_paths rec"
    and run: "analyze_try A H rec v context vis = (Inr r, vis')"
  shows "paths_ok (path context) r"
proof (cases "depth context > maxDepth A")
  case True
  with run show ?thesis by (auto simp: analyze_try_def)
next
  case False
  then have d: "(maxDepth A < depth context) = False" by simp
  show ?thesis
  proof (cases v)
    case (VRef a)
    show ?thesis
    proof (cases "H a")
      case (HArray arr)
      with run VRef d show ?thesis
        by (auto simp: analyze_try_def dest: handleArray_paths[OF rec])
    next
      case (HObject ob)
      show ?thesis
      proof (cases "a \<in> vis")
        case True
        with run VRef d HObject show ?thesis by (auto simp: analyze_try_def)
      next
        case nv: False
        show ?thesis
        proof (cases "lookupCustom A ob")
          case None
          with run VRef d HObject nv show ?thesis
            by (auto simp: analyze_try_def dest: handleObject_paths[OF rec])
        next
          case (Some h)
          show ?thesis
          proof (cases h)
            case (HBuiltin b)
            with run VRef d HObject nv Some show ?thesis
              by (auto simp: analyze_try_def customHandler_def dest: builtInHandler_paths[OF rec])
          next
            case (HCustom f)
            from lookupCustom_Some[OF Some] HCustom obtain n where "customTypes A n = Some (HCustom f)"
              by auto
            with custom run VRef d HObject nv Some HCustom show ?thesis
              by (auto simp: analyze_try_def customHandler_def custom_results_def)
          qed
        qed
      qed
    qed
  qed (use run d in \<open>auto simp: analyze_try_def handleNull_def handleUndefined_def
        handlePrimitive_def handleSymbol_def dest: handleFunction_shape\<close>)
qed

lemma analyze_step_paths:
  assumes "custom_results A (\<lambda>c r. paths_ok (path c) r)" and "returns_paths rec"
  shows "returns_paths (analyze_step A H rec)"
  unfolding returns_paths_def
proof (intro allI)
  fix v c s
  obtain out s' where t: "analyze_try A H rec v c s = (out, s')"
    by (cases "analyze_try A H rec v c s")
  show "paths_ok (path c) (fst (analyze_step A H rec v c s))"
  proof (cases out)
    case (Inl msg)
    with t show ?thesis by (simp add: analyze_step_def analyze_catch_def)
  next
    case (Inr r)
    with t analyze_try_paths[OF assms] have "paths_ok (path c) r" by blast
    with t Inr show ?thesis by (simp add: analyze_step_def analyze_catch_def)
  qed
qed

lemma analyze_nest_paths:
  assumes "custom_results A (\<lambda>c r. paths_ok (path c) r)"
  shows "returns_paths (analyze_nest n A H)"
proof (induction n)
  case 0
  show ?case by (simp add: returns_paths_def)
next
  case (Suc n)
  have "analyze_nest (Suc n) A H = analyze_step A H (analyze_nest n A H)"
    by (intro ext) simp
  then show ?case using analyze_step_paths[OF assms Suc] by simp
qed

section \<open>Growth of the visited set\<close>

lemma grows_refl: "grows A H s s"
  by (simp add: grows_def)

lemma grows_trans: "grows A H s s' \<Longrightarrow> grows A H s' s'' \<Longrightarrow> grows A H s s''"
  by (auto simp: grows_def)

lemma grows_insert: "tracked A H a \<Longrightarrow> grows A H s (insert a s)"
  by (auto simp: grows_def)

lemma rec_growsD: "rec_grows A H rec \<Longrightarrow> grows A H s (snd (rec v c s))"
  by (simp add: rec_grows_def)

lemma analyzeProperties_grows:
  assumes "rec_grows A H rec"
  shows "grows A H vis (snd (analyzeProperties A' rec context ps acc vis))"
proof (induction ps arbitrary: acc vis)
  case Nil
  show ?case by (simp add: grows_refl)
next
  case (Cons p ps)
  have step: "grows A H vis (snd (analyzeProperties A' rec context ps acc'
                (snd (rec v c vis))))" for acc' v c
    by (rule grows_trans[OF rec_growsD[OF assms] Cons.IH])
  show ?case
    by (simp add: Let_def split_beta Cons.IH step split: sum.splits)
qed

lemma analyzeSymbols_grows:
  assumes "rec_grows A H rec"
  shows "grows A H vis (snd (analyzeSymbols rec context ss acc vis))"
proof (induction ss arbitrary: acc vis)
  case Nil
  show ?case by (simp add: grows_refl)
next
  case (Cons p ss)
  obtain sy sl where p: "p = (sy, sl)" by (cases p)
  have step: "grows A H vis (snd (analyzeSymbols rec context ss acc'
                (snd (rec v c vis))))" for acc' v c
    by (rule grows_trans[OF rec_growsD[OF assms] Cons.IH])
  show ?case
    by (simp add: p Let_def split_beta Cons.IH step split: sum.splits)
qed

lemma arrayLoop_grows:
  assumes "rec_grows A H rec"
  shows "grows A H vis (snd (arrayLoop rec context xs i tm vis))"
proof (induction xs arbitrary: i tm vis)
  case Nil
  show ?case by (simp add: grows_refl)
next
  case (Cons x xs)
  have step: "grows A H vis (snd (arrayLoop rec context xs i' tm' (snd (rec v c vis))))" for i' tm' v c
    by (rule grows_trans[OF rec_growsD[OF assms] Cons.IH])
  show ?case
    by (simp add: Let_def split_beta step rec_growsD[OF assms] split: option.splits)
qed

lemma mapEntries_grows:
  assumes "rec_grows A H rec"
  shows "grows A H vis (snd (mapEntries rec context es vis))"
proof (induction es arbitrary: vis)
  case Nil
  show ?case by (simp add: grows_refl)
next
  case (Cons e es)
  obtain k v where e: "e = (k, v)" by (cases e)
  let ?c = "context\<lparr>depth := depth context + 1\<rparr>"
  have a: "grows A H vis (snd (rec k ?c vis))"
    by (rule rec_growsD[OF assms])
  have b: "grows A H (snd (rec k ?c vis)) (snd (rec v ?c (snd (rec k ?c vis))))"
    by (rule rec_growsD[OF assms])
  have c: "grows A H (snd (rec v ?c (snd (rec k ?c vis))))
      (snd (mapEntries rec context es (snd (rec v ?c (snd (rec k ?c vis))))))"
    by (rule Cons.IH)
  show ?case
    using grows_trans[OF grows_trans[OF a b] c] by (simp add: e split_beta)
qed

lemma setValues_grows:
  assumes "rec_grows A H rec"
  shows "grows A H vis (snd (setValues rec context vs vis))"
proof (induction vs arbitrary: vis)
  case Nil
  show ?case by (simp add: grows_refl)
next
  case (Cons v vs)
  show ?case
    using grows_trans[OF rec_growsD[OF assms] Cons.IH]
    by (simp add: split_beta)
qed

lemma handleObject_grows:
  assumes "rec_grows A H rec"
  shows "grows A H (insert a vis) (snd (handleObject A' rec a ob context vis))"
proof -
  have "grows A H (insert a vis) (snd (analyzeSymbols rec context ss acc'
          (snd (analyzeProperties A' rec context ps acc (insert a vis)))))" for ps acc ss acc'
    by (rule grows_trans[OF analyzeProperties_grows[OF assms] analyzeSymbols_grows[OF assms]])
  then show ?thesis
    by (simp add: handleObject_def Let_def split_beta split: sum.splits)
qed

lemma handleArray_grows:
  assumes "rec_grows A H rec"
  shows "grows A H (insert a vis) (snd (handleArray rec a arr context vis))"
proof -
  obtain out s where loop: "arrayLoop rec context arr 0 [] (insert a vis) = (out, s)"
    by (cases "arrayLoop rec context arr 0 [] (insert a vis)")
  have "grows A H (insert a vis) (snd (arrayLoop rec context arr 0 [] (insert a vis)))"
    by (rule arrayLoop_grows[OF assms])
  with loop show ?thesis
    by (cases out) (simp_all add: handleArray_def analyzeArrayElements_def)
qed

lemma builtInHandler_grows:
  assumes "rec_grows A H rec"
  shows "grows A H vis (snd (builtInHandler A' rec b ob context vis))"
  by (simp add: builtInHandler_def split_beta grows_refl mapEntries_grows[OF assms]
      setValues_grows[OF assms] split: builtin.splits internal.splits option.splits)

lemma analyze_try_grows:
  assumes "rec_grows A H rec"
  shows "grows A H vis (snd (analyze_try A H rec v context vis))"
proof (cases v)
  case (VRef a)
  show ?thesis
  proof (cases "H a")
    case (HArray arr)
    then have "tracked A H a" by (simp add: tracked_def)
    from grows_trans[OF grows_insert[OF this] handleArray_grows[OF assms]] HArray VRef
    show ?thesis by (simp add: analyze_try_def grows_refl)
  next
    case (HObject ob)
    show ?thesis
    proof (cases "lookupCustom A ob")
      case None
      with HObject have "tracked A H a" by (simp add: tracked_def)
      from grows_trans[OF grows_insert[OF this] handleObject_grows[OF assms]] HObject VRef None
      show ?thesis by (simp add: analyze_try_def grows_refl)
    next
      case (Some h)
      with HObject VRef show ?thesis
        by (simp add: analyze_try_def grows_refl customHandler_def builtInHandler_grows[OF assms]
            split: handler.splits)
    qed
  qed
qed (simp_all add: analyze_try_def grows_refl)

lemma analyze_nest_grows: "rec_grows A H (analyze_nest n A H)"
proof (induction n)
  case 0
  show ?case by (simp add: rec_grows_def grows_refl)
next
  case (Suc n)
  show ?case
    unfolding rec_grows_def
  proof (intro allI)
    fix v c s
    have "snd (analyze_nest (Suc n) A H v c s) = snd (analyze_try A H (analyze_nest n A H) v c s)"
      by (simp add: analyze_step_def analyze_catch_def split: prod.splits sum.splits)
    then show "grows A H s (snd (analyze_nest (Suc n) A H v c s))"
      using analyze_try_grows[OF Suc] by simp
  qed
qed

lemma analyze_grows: "grows A H vis (snd (analyze A H v ctx vis))"
  unfolding analyze_def by (rule rec_growsD[OF analyze_nest_grows])



section \<open>Keys of array groups\<close>

lemma json_key_inj: "json_key a = json_key b \<Longrightarrow> a = b"
  by (cases a; cases b) simp_all

lemma json_path_inj: "json_path p = json_path q \<Longrightarrow> p = q"
proof -
  assume "json_path p = json_path q"
  then have "map json_key p = map json_key q" by (simp add: json_path_def)
  moreover have "inj json_key" by (rule injI) (rule json_key_inj)
  ultimately show ?thesis by (simp add: inj_map_eq_map)
qed

lemma toJSON_path:
  "toJSON r = Some j \<Longrightarrow> serialized_path j = Some (json_path (result_path r))"
  by (cases r)
    (auto simp: json_opt_def split: prim.splits option.splits)

lemma typeMap_add_fresh:
  "key \<notin> fst ` set tm \<Longrightarrow> typeMap_add key t i tm = tm @ [(key, t, 1, [i])]"
  by (induction tm) auto

lemma arrayLoop_per_index:
  assumes rec: "\<forall>v c s. result_path (fst (rec v c s)) = path c"
    and run: "arrayLoop rec context xs i tm vis = (Inr tm', vis')"
    and keys: "\<forall>(k, t, c, is) \<in> set tm.
                 \<exists>j < i. serialized_path k = Some (json_path (path context @ [KIdx j]))"
  shows "map (\<lambda>(k, t, c, is). (c, is)) tm'
           = map (\<lambda>(k, t, c, is). (c, is)) tm @ map (\<lambda>j. (1, [j])) [i ..< i + length xs]"
  using run keys
proof (induction xs arbitrary: i tm vis)
  case Nil
  then show ?case by simp
next
  case (Cons x xs)
  let ?c = "context\<lparr>depth := depth context + 1, path := path context @ [KIdx i]\<rparr>"
  obtain t s where call: "rec x ?c vis = (t, s)" by (cases "rec x ?c vis")
  have pt: "result_path t = path context @ [KIdx i]"
    using rec[rule_format, of x ?c vis] call by simp
  show ?case
  proof (cases "toJSON t")
    case None
    with Cons.prems(1) call show ?thesis by simp
  next
    case (Some key)
    have kp: "serialized_path key = Some (json_path (path context @ [KIdx i]))"
      using toJSON_path[OF Some] pt by simp
    have fresh: "key \<notin> fst ` set tm"
    proof
      assume "key \<in> fst ` set tm"
      then obtain t' c' is' where "(key, t', c', is') \<in> set tm" by auto
      with Cons.prems(2) obtain j where "j < i"
        and "serialized_path key = Some (json_path (path context @ [KIdx j]))"
        by fastforce
      with kp have "json_path (path context @ [KIdx i]) = json_path (path context @ [KIdx j])"
        by simp
      then have "path context @ [KIdx i] = path context @ [KIdx j]"
        by (rule json_path_inj)
      with \<open>j < i\<close> show False by simp
    qed
    have run': "arrayLoop rec context xs (i + 1) (tm @ [(key, t, 1, [i])]) s = (Inr tm', vis')"
      using Cons.prems(1) call Some by (simp add: typeMap_add_fresh[OF fresh])
    have keys': "\<forall>(k, t, c, is) \<in> set (tm @ [(key, t, 1, [i])]).
                 \<exists>j < i + 1. serialized_path k = Some (json_path (path context @ [KIdx j]))"
    proof -
      have old: "\<exists>j < i + 1. serialized_path k = Some (json_path (path context @ [KIdx j]))"
        if "(k, t', c', is') \<in> set tm" for k t' c' is'
      proof -
        from Cons.prems(2) that obtain j where "j < i"
          and "serialized_path k = Some (json_path (path context @ [KIdx j]))"
          by fastforce
        then show ?thesis by (intro exI[of _ j]) simp
      qed
      have new: "\<exists>j < i + 1. serialized_path key = Some (json_path (path context @ [KIdx j]))"
        using kp by (intro exI[of _ i]) simp
      show ?thesis using old new by auto
    qed
    have "[i ..< i + length (x # xs)] = i # [i + 1 ..< i + 1 + length xs]"
      by (subst upt_rec) simp
    with Cons.IH[OF run' keys'] show ?thesis by simp
  qed
qed

lemma sort_key_constant:
  "\<forall>x \<in> set xs. f x = c \<Longrightarrow> sort_key f xs = xs"
proof (rule sort_key_id_if_sorted)
  assume "\<forall>x \<in> set xs. f x = c"
  then have "map f xs = replicate (length xs) c"
    by (induction xs) auto
  then show "sorted (map f xs)" by (simp add: sorted_replicate)
qed

lemma analyzeArrayElements_per_index:
  assumes rec: "\<forall>v c s. result_path (fst (rec v c s)) = path c"
    and run: "analyzeArrayElements rec arr context vis = (Inr gs, vis')"
  shows "map (\<lambda>(t, f, c, is). (f, c, is)) gs
           = map (\<lambda>j. (1 / of_nat (length arr), 1, [j])) [0 ..< length arr]"
proof -
  obtain out s where loop: "arrayLoop rec context arr 0 [] vis = (out, s)"
    by (cases "arrayLoop rec context arr 0 [] vis")
  with run obtain tm where out: "out = Inr tm"
    and gs: "gs = sort_key (\<lambda>(t, f, c, is). - int c)
                    (map (\<lambda>(k, t, c, is). (t, of_nat c / of_nat (length arr), c, is)) tm)"
    by (cases out) (auto simp: analyzeArrayElements_def)
  have tm: "map (\<lambda>(k, t, c, is). (c, is)) tm = map (\<lambda>j. (1, [j])) [0 ..< length arr]"
    using arrayLoop_per_index[OF rec loop[unfolded out]] by simp
  have ones: "\<forall>(k, t, c, is) \<in> set tm. c = 1"
  proof -
    have "\<forall>y \<in> set (map (\<lambda>(k, t, c, is). (c, is)) tm). fst y = 1"
      unfolding tm by auto
    then show ?thesis by fastforce
  qed
  let ?groups = "map (\<lambda>(k, t, c, is). (t, (of_nat c :: rat) / of_nat (length arr), c, is)) tm"
  have "\<forall>g \<in> set ?groups. (\<lambda>(t, f, c, is). - int c) g = - 1"
    using ones by auto
  then have "gs = ?groups"
    unfolding gs by (rule sort_key_constant)
  moreover have "map (\<lambda>(t, f, c, is). (f, c, is)) ?groups
      = map (\<lambda>(c, is). ((of_nat c :: rat) / of_nat (length arr), c, is))
          (map (\<lambda>(k, t, c, is). (c, is)) tm)"
    by (simp add: case_prod_beta)
  moreover have "map (\<lambda>(c, is). ((of_nat c :: rat) / of_nat (length arr), c, is))
          (map (\<lambda>j. (1, [j])) [0 ..< length arr])
      = map (\<lambda>j. (1 / of_nat (length arr), 1, [j])) [0 ..< length arr]"
    by simp
  ultimately show ?thesis
    by (simp only: tm)
qed

lemma builtInHandler_path:
  "builtInHandler A rec b ob context vis = (Inr r, vis') \<Longrightarrow> result_path r = path context"
  by (auto simp: builtInHandler_def split_beta
      split: builtin.splits internal.splits option.splits if_splits)

lemma analyze_try_path:
  assumes custom: "custom_results A (\<lambda>c r. result_path r = path c)"
    and run: "analyze_try A H rec v context vis = (Inr r, vis')"
  shows "result_path r = path context"
proof (cases "depth context > maxDepth A")
  case True
  with run show ?thesis by (auto simp: analyze_try_def)
next
  case False
  then have d: "(maxDepth A < depth context) = False" by simp
  show ?thesis
  proof (cases v)
    case (VRef a)
    show ?thesis
    proof (cases "H a")
      case (HArray arr)
      with run VRef d show ?thesis
        by (auto simp: analyze_try_def dest: handleArray_shape)
    next
      case (HObject ob)
      show ?thesis
      proof (cases "lookupCustom A ob")
        case None
        with run VRef d HObject show ?thesis
          by (auto simp: analyze_try_def split: if_splits dest: handleObject_shape)
      next
        case (Some h)
        show ?thesis
        proof (cases h)
          case (HBuiltin b)
          with run VRef d HObject Some show ?thesis
            by (auto simp: analyze_try_def customHandler_def split: if_splits
                dest: builtInHandler_path)
        next
          case (HCustom f)
          from lookupCustom_Some[OF Some] HCustom obtain n where "customTypes A n = Some (HCustom f)"
            by auto
          with custom run VRef d HObject Some HCustom show ?thesis
            by (auto simp: analyze_try_def customHandler_def custom_results_def split: if_splits)
        qed
      qed
    qed
  qed (use run d in \<open>auto simp: analyze_try_def handleNull_def handleUndefined_def
        handlePrimitive_def handleSymbol_def dest: handleFunction_shape\<close>)
qed

lemma analyze_path:
  assumes "custom_results A (\<lambda>c r. result_path r = path c)"
  shows "result_path (fst (analyze A H v ctx vis)) = path ctx"
proof -
  obtain out s where t: "analyze_try A H (analyze A H) v ctx vis = (out, s)"
    by (cases "analyze_try A H (analyze A H) v ctx vis")
  show ?thesis
  proof (cases out)
    case (Inl msg)
    with t show ?thesis by (simp add: analyze_unfold analyze_step_def analyze_catch_def)
  next
    case (Inr r)
    with t analyze_try_path[OF assms] have "result_path r = path ctx" by blast
    with t Inr show ?thesis by (simp add: analyze_unfold analyze_step_def analyze_catch_def)
  qed
qed

section \<open>Evaluation of concrete analyses\<close>

lemma customTypes_TypeAnalyzer:
  "customTypes (TypeAnalyzer config) =
     (case pc_customTypes config of Some t \<Rightarrow> t | None \<Rightarrow> (\<lambda>_. None))
     (''Date'' \<mapsto> HBuiltin BDate, ''RegExp'' \<mapsto> HBuiltin BRegExp, ''Map'' \<mapsto> HBuiltin BMap,
      ''Set'' \<mapsto> HBuiltin BSet, ''Promise'' \<mapsto> HBuiltin BPromise, ''Error'' \<mapsto> HBuiltin BError,
      ''Int8Array'' \<mapsto> HBuiltin (BTyped ''Int8Array''),
      ''Uint8Array'' \<mapsto> HBuiltin (BTyped ''Uint8Array''),
      ''Uint8ClampedArray'' \<mapsto> HBuiltin (BTyped ''Uint8ClampedArray''),
      ''Int16Array'' \<mapsto> HBuiltin (BTyped ''Int16Array''),
      ''Uint16Array'' \<mapsto> HBuiltin (BTyped ''Uint16Array''),
      ''Int32Array'' \<mapsto> HBuiltin (BTyped ''Int32Array''),
      ''Uint32Array'' \<mapsto> HBuiltin (BTyped ''Uint32Array''),
      ''Float32Array'' \<mapsto> HBuiltin (BTyped ''Float32Array''),
      ''Float64Array'' \<mapsto> HBuiltin (BTyped ''Float64Array''),
      ''BigInt64Array'' \<mapsto> HBuiltin (BTyped ''BigInt64Array''),
      ''BigUint64Array'' \<mapsto> HBuiltin (BTyped ''BigUint64Array''))"
  by (simp add: TypeAnalyzer_def registerBuiltInHandlers_def registerCustomType_def typedArrays_def)

lemma config_TypeAnalyzer:
  "maxDepth (TypeAnalyzer config) = (case pc_maxDepth config of Some m \<Rightarrow> m | None \<Rightarrow> 10)"
  "includeMethods (TypeAnalyzer config) = (case pc_includeMethods config of Some b \<Rightarrow> b | None \<Rightarrow> True)"
  "includeGettersSetters (TypeAnalyzer config) =
     (case pc_includeGettersSetters config of Some b \<Rightarrow> b | None \<Rightarrow> True)"
  "includePrototype (TypeAnalyzer config) = (case pc_includePrototype config of Some b \<Rightarrow> b | None \<Rightarrow> True)"
  "includePrivateProps (TypeAnalyzer config) =
     (case pc_includePrivateProps config of Some b \<Rightarrow> b | None \<Rightarrow> False)"
  by (simp_all add: TypeAnalyzer_def registerBuiltInHandlers_def registerCustomType_def typedArrays_def)

lemma TypeAnalyzer_no_custom:
  "pc_customTypes config = None \<Longrightarrow> customTypes (TypeAnalyzer config) n \<noteq> Some (HCustom f)"
  by (simp add: customTypes_TypeAnalyzer)

lemma custom_results_TypeAnalyzer:
  "pc_customTypes config = None \<Longrightarrow> custom_results (TypeAnalyzer config) P"
  by (simp add: custom_results_def TypeAnalyzer_no_custom)


lemmas analyzer_with_depth_simps =
  config_TypeAnalyzer [of "no_config\<lparr>pc_maxDepth := Some m\<rparr>", folded analyzer_with_depth_def, simplified no_config_def, simplified]
  customTypes_TypeAnalyzer [of "no_config\<lparr>pc_maxDepth := Some m\<rparr>", folded analyzer_with_depth_def, simplified no_config_def, simplified]
  for m

lemmas eval_simps =
  analyze_unfold analyze_step_def analyze_try_def analyze_catch_def
  handleNull_def handleUndefined_def handlePrimitive_def handleSymbol_def handleFunction_def
  handleArray_def analyzeArrayElements_def handleObject_def prototype_info_def
  constructor_or_Object_def starts_with_hash_def symbol_toString_def symbol_key_def
  customHandler_def builtInHandler_def lookupCustom_def json_path_def json_opt_def
  root_context_def plain_object_def data_def Let_def record_set_def

lemma depth_boundary_example:
  "analyze (analyzer_with_depth 1) heap_abc (VRef 0) root_context {} =
     (RObject ''Object''
        [(''a'', RObject ''Object''
                  [(''b'', RMaxDepth [KStr ''a'', KStr ''b''])] None None [KStr ''a''])]
        None None [],
      {0, 1})"
  by (simp add: eval_simps analyzer_with_depth_simps heap_abc_def insert_commute)

lemma descent_probe_example:
  "handleObject (analyzer_with_depth 10) probe 0 object_ab \<lparr>depth = 5, path = [KStr ''x'']\<rparr> {}
     = (Inr (RObject ''Object''
          [(''a'', RPrimitive (PNumber 6) [KStr ''x'', KStr ''a'']),
           (''b'', RPrimitive (PNumber 6) [KStr ''x'', KStr ''b''])]
          (Some [(''Symbol(tag)'', RPrimitive (PNumber 6) [KStr ''x'', KStr ''tag''])])
          None [KStr ''x'']), {0})"
  "analyzeArrayElements probe [VNull, VNull] \<lparr>depth = 5, path = [KStr ''x'']\<rparr> {}
     = (Inr [(RPrimitive (PNumber 6) [KStr ''x'', KIdx 0], 1 / 2, 1, [0]),
             (RPrimitive (PNumber 6) [KStr ''x'', KIdx 1], 1 / 2, 1, [1])], {})"
  by (simp_all add: eval_simps analyzer_with_depth_simps probe_def object_ab_def)


lemma point_example:
  "analyze (registerCustomType ''Point'' point_handler (TypeAnalyzer no_config)) heap_point
      (VRef 0) root_context {} = (RCustom ''Point'' [(''dimensions'', JNum 2)] [], {})"
  "analyze (TypeAnalyzer no_config) heap_point (VRef 0) root_context {}
     = (RObject ''Point'' [(''x'', RPrimitive (PNumber 1) [KStr ''x'']),
                           (''y'', RPrimitive (PNumber 2) [KStr ''y''])]
          None (Some (Some ''Point'', Some [''constructor''])) [], {0})"
  by (simp_all add: eval_simps config_TypeAnalyzer customTypes_TypeAnalyzer no_config_def
      registerCustomType_def point_handler_def heap_point_def)

lemma map_set_example:
  "analyze (analyzer_with_depth 1) heap_map_set (VRef 0) root_context {}
     = (RMap 1 (Some [(RPrimitive (PString ''k'') [], RPrimitive (PNumber 1) [])]) [], {})"
  "analyze (analyzer_with_depth 0) heap_map_set (VRef 0) root_context {} = (RMap 1 None [], {})"
  "analyze (analyzer_with_depth 1) heap_map_set (VRef 1) root_context {}
     = (RSet 1 (Some [RPrimitive (PNumber 7) []]) [], {})"
  "analyze (analyzer_with_depth 0) heap_map_set (VRef 1) root_context {} = (RSet 1 None [], {})"
  by (simp_all add: eval_simps analyzer_with_depth_simps heap_map_set_def map_object_def set_object_def)

lemma errors_example:
  "analyze no_accessors heap_throw (VRef 0) root_context {}
     = (RObject ''Object'' [(''bad'', RError ''boom'' [KStr ''bad'']),
                            (''good'', RPrimitive (PNumber 1) [KStr ''good''])] None None [], {0})"
  "analyze no_accessors heap_throw (VRef 2) root_context {}
     = (RObject ''Object'' [(''first'', RError ''bang'' [KStr ''first'']),
                            (''second'', RPrimitive (PBoolean True) [KStr ''second''])] None None [],
        {1, 2})"
  "analyze no_accessors heap_throw (VRef 3) root_context {}
     = (RError ''Do not know how to serialize a BigInt'' [], {3})"
  by (simp_all add: eval_simps no_accessors_def config_TypeAnalyzer customTypes_TypeAnalyzer
      no_config_def heap_throw_def insert_commute)

lemma custom_results_default: "custom_results (TypeAnalyzer no_config) P"
  by (rule custom_results_TypeAnalyzer) (simp add: no_config_def)

lemma self_map_example:
  "analyze (analyzer_with_depth 2) heap_self_map (VRef 0) root_context {}
     = (RMap 1 (Some [(RPrimitive (PString ''self'') [],
          RMap 1 (Some [(RPrimitive (PString ''self'') [],
            RMap 1 None [])]) [])]) [], {})"
  by (simp add: eval_simps analyzer_with_depth_simps heap_self_map_def map_object_def)

lemma shared_object_example:
  "analyze (TypeAnalyzer no_config) heap_shared (VRef 5) root_context {}
     = (RObject ''Object'' [(''x'', RObject ''Object'' [] None None [KStr ''x'']),
                            (''y'', RCircular [KStr ''y''])] None None [], {3, 5})"
  by (simp add: eval_simps config_TypeAnalyzer customTypes_TypeAnalyzer no_config_def
      heap_shared_def insert_commute)

section \<open>Branches of the handlers\<close>









lemma analyzeSymbols_threaded:
  "snd (analyzeSymbols rec context ss acc vis) = threaded rec (symbol_branches context ss) vis"
  by (induction ss arbitrary: acc vis)
    (auto simp: Let_def split_beta child_context_def split: sum.splits)





lemma mapEntries_threaded:
  "snd (mapEntries rec context es vis) = threaded rec (entry_branches context es) vis"
  by (induction es arbitrary: vis) (auto simp: split_beta entry_context_def)


lemma setValues_threaded:
  "snd (setValues rec context vs vis) = threaded rec (member_branches context vs) vis"
  by (induction vs arbitrary: vis) (auto simp: split_beta entry_context_def member_branches_def)



lemma arrayLoop_threaded:
  "arrayLoop rec context xs i tm vis = (Inr tm', vis') \<Longrightarrow>
   vis' = threaded rec (element_branches context xs i) vis"
  by (induction xs arbitrary: i tm vis)
    (auto simp: Let_def split_beta child_context_def split: option.splits)



section \<open>Threading the analyzer\<close>





section \<open>Results of the containers\<close>








section \<open>Encounters of a shared object\<close>













lemma branches_example:
  "analyze (TypeAnalyzer no_config) heap_branches (VRef 6) root_context {}
     = (RObject ''Object''
          [(''x'', RObject ''Object''
                     [(''u'', RObject ''Object'' [] None None [KStr ''x'', KStr ''u''])]
                     None None [KStr ''x'']),
           (''y'', RObject ''Object'' [(''z'', RCircular [KStr ''y'', KStr ''z''])]
                     None None [KStr ''y''])] None None [], {0, 4, 6, 7})"
  "analyze (TypeAnalyzer no_config) heap_branches (VRef 1) root_context {}
     = (RArray 2 [(RObject ''Object'' [] None None [KIdx 0], 1 / 2, 1, [0]),
                  (RCircular [KIdx 1], 1 / 2, 1, [1])] [], {0, 1})"
  "analyze (TypeAnalyzer no_config) heap_branches (VRef 2) root_context {}
     = (RMap 1 (Some [(RObject ''Object'' [] None None [], RCircular [])]) [], {0})"
  "analyze (TypeAnalyzer no_config) heap_branches (VRef 3) root_context {}
     = (RSet 2 (Some [RObject ''Object'' [(''u'', RObject ''Object'' [] None None [KStr ''u''])]
                        None None [],
                      RCircular []]) [], {0, 4})"
  "analyze (TypeAnalyzer no_config) heap_branches (VRef 5) root_context {}
     = (RObject ''Object'' [(''x'', RObject ''Object'' [] None None [KStr ''x''])]
          (Some [(''Symbol(tag)'', RCircular [KStr ''tag''])]) None [], {0, 5})"
  by (simp_all add: eval_simps config_TypeAnalyzer customTypes_TypeAnalyzer no_config_def
      heap_branches_def map_object_def set_object_def insert_commute)

section \<open>Grouping of array elements\<close>

text \<open>
  Claim C1 says that an array whose elements have two distinct shapes, occurring \<open>a\<close> and
  \<open>b\<close> times, yields two groups with counts \<open>a\<close> and \<open>b\<close>. The code groups by the
  serialized result of each element, and that result holds the element's path, which ends
  in its index. So, with handlers that return results at the path of their context (as
  all built-in ones do), no two elements of an array ever share a group: the groups of an
  array of length \<open>N\<close> are, in order, one per index, each of count 1 and frequency
  \<open>1/N\<close>. For the array \<open>[1, "a", 1]\<close> the two equal numbers at indices 0 and 2 are
  not grouped together.
\<close>

theorem C1_groups_per_index:
  assumes "custom_results A (\<lambda>c r. result_path r = path c)"
    and "H a = HArray arr"
    and "analyze A H (VRef a) ctx vis = (RArray n gs p, vis')"
  shows "map (\<lambda>(t, f, c, is). (f, c, is)) gs
           = map (\<lambda>j. (1 / of_nat (length arr), 1, [j])) [0 ..< length arr]"
proof -
  have le: "depth ctx \<le> maxDepth A"
  proof (rule ccontr)
    assume "\<not> depth ctx \<le> maxDepth A"
    then have "analyze A H (VRef a) ctx vis = (RMaxDepth (path ctx), vis)"
      by (simp add: analyze_unfold analyze_step_def analyze_try_def analyze_catch_def)
    with assms(3) show False by simp
  qed
  obtain out s where el: "analyzeArrayElements (analyze A H) arr ctx (insert a vis) = (out, s)"
    by (cases "analyzeArrayElements (analyze A H) arr ctx (insert a vis)")
  have "out = Inr gs"
    using assms(2,3) le el
    by (cases out) (simp_all add: analyze_array handleArray_def analyze_catch_def)
  with el have run: "analyzeArrayElements (analyze A H) arr ctx (insert a vis) = (Inr gs, s)"
    by simp
  have rec: "\<forall>v c s. result_path (fst (analyze A H v c s)) = path c"
    by (simp add: analyze_path[OF assms(1)])
  show ?thesis
    by (rule analyzeArrayElements_per_index[OF rec run])
qed

theorem C1_number_string_number_witness:
  "analyze (TypeAnalyzer no_config) heap_arrays (VRef 0) root_context {}
     = (RArray 3
          [(RPrimitive (PNumber 1) [KIdx 0], 1 / 3, 1, [0]),
           (RPrimitive (PString ''a'') [KIdx 1], 1 / 3, 1, [1]),
           (RPrimitive (PNumber 1) [KIdx 2], 1 / 3, 1, [2])] [], {0})
   \<and> map (\<lambda>(t, f, c, is). (f, c, is))
          [(RPrimitive (PNumber 1) [KIdx 0], 1 / 3, 1, [0]),
           (RPrimitive (PString ''a'') [KIdx 1], 1 / 3, 1, [1]),
           (RPrimitive (PNumber 1) [KIdx 2], 1 / 3 :: rat, 1 :: nat, [2 :: nat])]
       = map (\<lambda>j. (1 / of_nat (length [VPrim (PNumber 1), VPrim (PString ''a''), VPrim (PNumber 1)]),
                    1, [j]))
           [0 ..< length [VPrim (PNumber 1), VPrim (PString ''a''), VPrim (PNumber 1)]]"
proof -
  have arr: "heap_arrays 0 = HArray [VPrim (PNumber 1), VPrim (PString ''a''), VPrim (PNumber 1)]"
    by (simp add: heap_arrays_def)
  have ev: "analyze (TypeAnalyzer no_config) heap_arrays (VRef 0) root_context {}
     = (RArray 3
          [(RPrimitive (PNumber 1) [KIdx 0], 1 / 3, 1, [0]),
           (RPrimitive (PString ''a'') [KIdx 1], 1 / 3, 1, [1]),
           (RPrimitive (PNumber 1) [KIdx 2], 1 / 3, 1, [2])] [], {0})"
    by (simp add: eval_simps config_TypeAnalyzer customTypes_TypeAnalyzer no_config_def
        heap_arrays_def)
  from C1_groups_per_index [OF custom_results_default arr ev] ev
  show ?thesis by blast
qed

section \<open>The depth bound\<close>



section \<open>Cycles through arrays\<close>

text \<open>
  Claim C3 says that meeting again a reference that is in the visited set yields a
  \<open>circular-reference\<close> result. The array handler adds its array to the set, but
  \<open>analyze\<close> hands every array to that handler before it looks at the set: whatever the
  visited set holds, the analysis of an array reference is never \<open>circular-reference\<close>.
  The witness is the array that holds itself: it is descended into again and again,
  down to the depth bound.
\<close>

theorem C3_array_never_circular:
  "H a = HArray arr \<longrightarrow> (\<forall>p. fst (analyze A H (VRef a) ctx vis) \<noteq> RCircular p)"
proof (intro impI allI)
  fix p
  assume arr: "H a = HArray arr"
  show "fst (analyze A H (VRef a) ctx vis) \<noteq> RCircular p"
  proof (cases "depth ctx \<le> maxDepth A")
    case True
    obtain out s where h: "handleArray (analyze A H) a arr ctx vis = (out, s)"
      by (cases "handleArray (analyze A H) a arr ctx vis")
    show ?thesis
    proof (cases out)
      case (Inl msg)
      with h arr True show ?thesis by (simp add: analyze_array analyze_catch_def)
    next
      case (Inr r)
      with h handleArray_shape obtain gs where "r = RArray (length arr) gs (path ctx)" by blast
      with h Inr arr True show ?thesis by (simp add: analyze_array analyze_catch_def)
    qed
  next
    case False
    then show ?thesis
      by (simp add: analyze_unfold analyze_step_def analyze_try_def analyze_catch_def)
  qed
qed

theorem C3_self_array_witness:
  "analyze (analyzer_with_depth 2) heap_arrays (VRef 1) root_context {}
     = (RArray 1
          [(RArray 1
              [(RArray 1 [(RMaxDepth [KIdx 0, KIdx 0, KIdx 0], 1, 1, [0])] [KIdx 0, KIdx 0],
                1, 1, [0])] [KIdx 0],
            1, 1, [0])] [], {1})
   \<and> fst (analyze (analyzer_with_depth 2) heap_arrays (VRef 1) \<lparr>depth = 1, path = [KIdx 0]\<rparr> {1})
       \<noteq> RCircular [KIdx 0]"
  using C3_array_never_circular [where H = heap_arrays and a = 1 and arr = "[VRef 1]"
      and A = "analyzer_with_depth 2" and ctx = "\<lparr>depth = 1, path = [KIdx 0]\<rparr>" and vis = "{1}"]
  by (simp add: eval_simps analyzer_with_depth_simps heap_arrays_def)

section \<open>Paths of nested results\<close>

text \<open>
  Claim C5, amended. Provided every caller-registered handler returns results whose paths
  are built this way from the path of its context, every result of \<open>analyze\<close> carries the
  path of its context (the empty path for a top-level call); below it, the result of an
  object property or symbol property and the type of an array group carry the parent's
  path with exactly one key or index appended, while the results of \<open>Map\<close> entries and
  \<open>Set\<close> members carry the parent's path itself: their handlers copy the context and
  raise its depth, and leave its path alone.
\<close>

theorem C5_paths:
  assumes "custom_results A (\<lambda>c r. paths_ok (path c) r)"
  shows "paths_ok (path ctx) (fst (analyze A H v ctx vis))
       \<and> result_path (fst (analyze A H v root_context vis)) = []"
proof -
  have p: "paths_ok (path c) (fst (analyze A H v c vis))" for c
  proof -
    have "returns_paths (analyze_nest (Suc (nat (maxDepth A + 1 - depth c))) A H)"
      by (rule analyze_nest_paths[OF assms])
    then show ?thesis
      unfolding analyze_def returns_paths_def by blast
  qed
  from p[of root_context] have "result_path (fst (analyze A H v root_context vis)) = []"
    by (simp add: paths_ok_path root_context_def)
  with p show ?thesis by simp
qed

theorem C5_paths_witness:
  "paths_ok [] (fst (analyze (TypeAnalyzer no_config) heap_point (VRef 1) root_context {}))
   \<and> result_path (fst (analyze (TypeAnalyzer no_config) heap_point (VRef 1) root_context {})) = []
   \<and> paths_ok [] (fst (analyze (TypeAnalyzer no_config) heap_map_set (VRef 0) root_context {}))"
  using C5_paths [OF custom_results_default, where H = heap_point
      and v = "VRef 1" and ctx = root_context and vis = "{}"]
    C5_paths [OF custom_results_default, where H = heap_map_set
      and v = "VRef 0" and ctx = root_context and vis = "{}"]
  by (simp add: no_config_def root_context_def)

text \<open>
  As stated, with one key appended below \<open>Map\<close> and \<open>Set\<close> results too, the claim fails:
  the member of the set \<open>{7}\<close> analyzed at the root carries the empty path of the set.
\<close>

theorem C5_paths_counterexample:
  "fst (analyze (TypeAnalyzer no_config) heap_map_set (VRef 1) root_context {})
     = RSet 1 (Some [RPrimitive (PNumber 7) []]) []
   \<and> \<not> paths_as_claimed (fst (analyze (TypeAnalyzer no_config) heap_map_set (VRef 1) root_context {}))
   \<and> \<not> paths_as_claimed (fst (analyze (TypeAnalyzer no_config) heap_map_set (VRef 0) root_context {}))"
  by (simp add: eval_simps config_TypeAnalyzer customTypes_TypeAnalyzer no_config_def
      heap_map_set_def map_object_def set_object_def extends_by_one_def)

section \<open>Dispatch order\<close>

text \<open>
  Claim C6. Primitives and arrays are resolved before the named-composite table is
  consulted, and the table before the generic object handler. So registering a handler
  changes nothing for a value that is not an object reference; an array goes to the array
  handler whatever is registered; an instance of a class with a registered handler, not
  yet visited and within the depth bound, gets exactly that handler's output (its thrown
  message as an \<open>error\<close> result); and an object goes to the generic handler only when
  the table has no handler for its class name. Lemma \<open>point_example\<close> is the class
  \<open>Point\<close> with and without its handler.
\<close>

theorem C6_dispatch_order:
  "((\<forall>a. v \<noteq> VRef a) \<longrightarrow>
      analyze (registerCustomType n h A) H v ctx vis = analyze A H v ctx vis)
   \<and> (H a = HArray arr \<and> depth ctx \<le> maxDepth A \<longrightarrow>
      analyze (registerCustomType n h A) H (VRef a) ctx vis
        = analyze_catch ctx
            (handleArray (analyze (registerCustomType n h A) H) a arr ctx vis))
   \<and> (H a = HObject ob \<and> oclass ob = Some n \<and> n \<noteq> [] \<and> a \<notin> vis \<and> depth ctx \<le> maxDepth A \<longrightarrow>
      analyze (registerCustomType n (HCustom f) A) H (VRef a) ctx vis
        = analyze_catch ctx (f H (VRef a) ctx vis, vis))
   \<and> (H a = HObject ob \<and> lookupCustom A ob = None \<and> a \<notin> vis \<and> depth ctx \<le> maxDepth A \<longrightarrow>
      analyze A H (VRef a) ctx vis
        = analyze_catch ctx (handleObject A (analyze A H) a ob ctx vis))"
proof (intro conjI impI)
  assume "\<forall>a. v \<noteq> VRef a"
  then show "analyze (registerCustomType n h A) H v ctx vis = analyze A H v ctx vis"
    by (rule analyze_primitive_table) (simp_all add: registerCustomType_def)
next
  assume "H a = HArray arr \<and> depth ctx \<le> maxDepth A"
  then show "analyze (registerCustomType n h A) H (VRef a) ctx vis
        = analyze_catch ctx
            (handleArray (analyze (registerCustomType n h A) H) a arr ctx vis)"
    by (simp add: analyze_array registerCustomType_def)
next
  assume h: "H a = HObject ob \<and> oclass ob = Some n \<and> n \<noteq> [] \<and> a \<notin> vis \<and> depth ctx \<le> maxDepth A"
  then have "lookupCustom (registerCustomType n (HCustom f) A) ob = Some (HCustom f)"
    by (simp add: lookupCustom_def registerCustomType_def)
  with h show "analyze (registerCustomType n (HCustom f) A) H (VRef a) ctx vis
        = analyze_catch ctx (f H (VRef a) ctx vis, vis)"
    by (simp add: analyze_custom[where ob=ob and h="HCustom f"] customHandler_def registerCustomType_def)
next
  assume "H a = HObject ob \<and> lookupCustom A ob = None \<and> a \<notin> vis \<and> depth ctx \<le> maxDepth A"
  then show "analyze A H (VRef a) ctx vis
        = analyze_catch ctx (handleObject A (analyze A H) a ob ctx vis)"
    by (simp add: analyze_generic)
qed

theorem C6_dispatch_witness:
  "analyze (registerCustomType ''Point'' point_handler (TypeAnalyzer no_config)) heap_point
       (VPrim (PNumber 42)) root_context {}
     = analyze (TypeAnalyzer no_config) heap_point (VPrim (PNumber 42)) root_context {}
   \<and> analyze (registerCustomType ''Array'' point_handler (TypeAnalyzer no_config)) heap_point
       (VRef 1) root_context {}
     = (RArray 1 [(RObject ''Point'' [(''x'', RPrimitive (PNumber 1) [KIdx 0, KStr ''x'']),
                                      (''y'', RPrimitive (PNumber 2) [KIdx 0, KStr ''y''])]
                     None (Some (Some ''Point'', Some [''constructor''])) [KIdx 0], 1, 1, [0])] [], {0, 1})
   \<and> analyze (registerCustomType ''Point'' point_handler (TypeAnalyzer no_config)) heap_point
       (VRef 0) root_context {}
     = (RCustom ''Point'' [(''dimensions'', JNum 2)] [], {})"
  using C6_dispatch_order [where v = "VPrim (PNumber 42)" and n = "''Point''" and h = point_handler
      and A = "TypeAnalyzer no_config" and H = heap_point and ctx = root_context and vis = "{}"]
    C6_dispatch_order [where n = "''Array''" and h = point_handler
      and A = "TypeAnalyzer no_config" and H = heap_point and ctx = root_context and vis = "{}"
      and a = 1 and arr = "[VRef 0]"]
    C6_dispatch_order [where n = "''Point''"
      and A = "TypeAnalyzer no_config" and H = heap_point and ctx = root_context and vis = "{}"
      and a = 0 and ob = "\<lparr> oclass = Some ''Point'',
         oprops = [data ''x'' (VPrim (PNumber 1)), data ''y'' (VPrim (PNumber 2))],
         osyms = [], oproto = ProtoClass (Some ''Point'') [], ointernal = INone \<rparr>"
      and f = "\<lambda>H v c s. Inr (RCustom ''Point'' [(''dimensions'', JNum 2)] (path c))"]
  by (simp add: eval_simps config_TypeAnalyzer customTypes_TypeAnalyzer no_config_def
      registerCustomType_def point_handler_def heap_point_def insert_commute)

section \<open>Maps and sets at the depth bound\<close>



section \<open>Shared references\<close>




section \<open>What enters the visited set\<close>

text \<open>
  Claim C9. An analysis only adds to the visited set, and only addresses of arrays and of
  objects that go to the generic object handler. An object whose class has a handler in
  the named-composite table is never added, so however often it is met again, within the
  depth bound it is handed to its handler again and never reported by the visited-set
  check. Caller-registered handlers are functions of the value and the context here; a
  handler that itself mutated the visited set is outside this model. The witness is a
  \<open>Map\<close> that holds itself: lemma \<open>self_map_example\<close> shows the descent ending at the
  depth bound.
\<close>

theorem C9_visited_additions:
  "vis \<subseteq> snd (analyze A H v ctx vis)
   \<and> (\<forall>a \<in> snd (analyze A H v ctx vis) - vis. tracked A H a)
   \<and> (H a = HObject ob \<and> lookupCustom A ob = Some h \<and> a \<notin> vis \<longrightarrow>
        a \<notin> snd (analyze A H v ctx vis))
   \<and> (H a = HObject ob \<and> lookupCustom A ob = Some h \<and> a \<notin> vis \<and> depth ctx' \<le> maxDepth A \<longrightarrow>
        analyze A H (VRef a) ctx' (snd (analyze A H v ctx vis))
          = analyze_catch ctx'
              (customHandler A H (analyze A H) h a ob ctx' (snd (analyze A H v ctx vis))))"
proof -
  have g: "grows A H vis (snd (analyze A H v ctx vis))"
    by (rule analyze_grows)
  have never: "a \<notin> snd (analyze A H v ctx vis)"
    if "H a = HObject ob" "lookupCustom A ob = Some h" "a \<notin> vis"
  proof
    assume "a \<in> snd (analyze A H v ctx vis)"
    with g that(3) have "tracked A H a" by (auto simp: grows_def)
    with that(1,2) show False by (simp add: tracked_def)
  qed
  show ?thesis
    using g never by (auto simp: grows_def analyze_custom)
qed

theorem C9_visited_witness:
  "snd (analyze (analyzer_with_depth 2) heap_self_map (VRef 0) root_context {}) = {}
   \<and> analyze (analyzer_with_depth 2) heap_self_map (VRef 0) \<lparr>depth = 1, path = []\<rparr>
        (snd (analyze (analyzer_with_depth 2) heap_self_map (VRef 0) root_context {}))
     = (RMap 1 (Some [(RPrimitive (PString ''self'') [], RMap 1 None [])]) [], {})"
  using C9_visited_additions [where A = "analyzer_with_depth 2" and H = heap_self_map
      and v = "VRef 0" and ctx = root_context and vis = "{}" and a = 0
      and ob = "\<lparr> oclass = Some ''Map'', oprops = [], osyms = [],
               oproto = ProtoClass (Some ''Map'') [],
               ointernal = IMap [(VPrim (PString ''self''), VRef 0)] \<rparr>"
      and h = "HBuiltin BMap" and ctx' = "\<lparr>depth = 1, path = []\<rparr>"]
  by (simp add: eval_simps analyzer_with_depth_simps heap_self_map_def map_object_def tracked_def)

section \<open>Contexts of recursive descents\<close>

text \<open>
  Claim C10. Every recursive descent of the object handler (into a property or a symbol
  property) and of the array aggregator (into an element) is a call of the analyzer with a
  context whose depth is the caller's depth plus one and whose path is the caller's path
  with one key appended: the outcome of either handler depends on the recursive analyzer
  only through its values at such contexts. The caller's depth and path are the same for
  every descent, whatever the earlier ones returned; lemma \<open>descent_probe_example\<close> shows
  the contexts the callees receive.
\<close>

theorem C10_descent_contexts:
  assumes "\<forall>v c s. descends context c \<longrightarrow> rec v c s = rec' v c s"
  shows "handleObject A rec a ob context vis = handleObject A rec' a ob context vis
       \<and> analyzeArrayElements rec arr context vis = analyzeArrayElements rec' arr context vis"
proof -
  have r: "\<And>v c s. descends context c \<Longrightarrow> rec v c s = rec' v c s"
    using assms by blast
  show ?thesis
  proof
    show "handleObject A rec a ob context vis = handleObject A rec' a ob context vis"
      by (rule handleObject_cong) (rule r)
    show "analyzeArrayElements rec arr context vis = analyzeArrayElements rec' arr context vis"
      by (rule analyzeArrayElements_cong) (rule r)
  qed
qed


theorem C10_descent_witness:
  "handleObject (analyzer_with_depth 10) probe 0 object_ab \<lparr>depth = 5, path = [KStr ''x'']\<rparr> {}
     = handleObject (analyzer_with_depth 10)
         (\<lambda>v c s. if descends \<lparr>depth = 5, path = [KStr ''x'']\<rparr> c then probe v c s else (RNull [], {}))
         0 object_ab \<lparr>depth = 5, path = [KStr ''x'']\<rparr> {}
   \<and> analyzeArrayElements probe [VNull, VNull] \<lparr>depth = 5, path = [KStr ''x'']\<rparr> {}
     = analyzeArrayElements
         (\<lambda>v c s. if descends \<lparr>depth = 5, path = [KStr ''x'']\<rparr> c then probe v c s else (RNull [], {}))
         [VNull, VNull] \<lparr>depth = 5, path = [KStr ''x'']\<rparr> {}"
  using C10_descent_contexts [of "\<lparr>depth = 5, path = [KStr ''x'']\<rparr>" probe
      "\<lambda>v c s. if descends \<lparr>depth = 5, path = [KStr ''x'']\<rparr> c then probe v c s else (RNull [], {})"
      "analyzer_with_depth 10" 0 object_ab "{}" "[VNull, VNull]"]
  by simp

end
